theory Spec2Isabelle
  imports Complex_Main "HOL-Library.AList"
begin

section \<open>Values of the Python program\<close>

text \<open>
  A Python float is kept as the number it denotes, or one of the three special values.
  Comparing two floats is exact, so \<open>>=\<close> on floats is \<open>\<ge>\<close> on these numbers, false
  as soon as one side is NaN.
\<close>

datatype pyfloat = Fin real | PInf | NInf | NaN

fun float_ge :: "pyfloat \<Rightarrow> pyfloat \<Rightarrow> bool" where
  "float_ge NaN _ = False"
| "float_ge _ NaN = False"
| "float_ge PInf _ = True"
| "float_ge _ NInf = True"
| "float_ge (Fin a) (Fin b) = (b \<le> a)"
| "float_ge (Fin _) PInf = False"
| "float_ge NInf _ = False"

text \<open>
  A cell of a row as the store client hands it over: JSON null, a boolean, a number or a
  text (the columns of \<open>alert_rules\<close> are scalars; a number is kept as the float it
  converts to). A rule is the \<open>dict\<close> of one row of \<open>alert_rules\<close>, kept as an
  association list read with \<open>map_of\<close>.
\<close>

datatype jval = JNull | JBool bool | JNum pyfloat | JStr string

type_synonym row = "(string \<times> jval) list"

datatype py_error =
    KeyError string
  | TypeError
  | ValueError
  | AttributeError
  | RuntimeError
  | SourceError
  | StoreError
  | UnicodeEncodeError

text \<open>\<open>rule[k]\<close>: a missing key raises.\<close>

definition getitem :: "row \<Rightarrow> string \<Rightarrow> py_error + jval" where
  "getitem rule k = (case map_of rule k of None \<Rightarrow> Inl (KeyError k) | Some v \<Rightarrow> Inr v)"

text \<open>\<open>rule.get(k)\<close>: a missing key is \<open>None\<close>.\<close>

definition dict_get :: "row \<Rightarrow> string \<Rightarrow> jval" where
  "dict_get rule k = (case map_of rule k of None \<Rightarrow> JNull | Some v \<Rightarrow> v)"

text \<open>Truth value of a Python object, as \<open>bool(x)\<close>, \<open>x or y\<close> and \<open>not x\<close> take it.\<close>

fun truthy :: "jval \<Rightarrow> bool" where
  "truthy JNull = False"
| "truthy (JBool b) = b"
| "truthy (JNum f) = (f \<noteq> Fin 0)"
| "truthy (JStr s) = (s \<noteq> [])"

section \<open>The world outside the process\<close>

text \<open>One daily bar of the price history the market-data provider returns.\<close>

record bar =
  bar_date :: string
  bar_open :: pyfloat
  bar_high :: pyfloat
  bar_low :: pyfloat
  bar_close :: pyfloat

text \<open>The row \<open>fetch_latest_ohlc\<close> builds and \<open>upsert_ohlc\<close> stores.\<close>

record ohlc =
  ohlc_symbol :: string
  ohlc_date :: string
  ohlc_open :: pyfloat
  ohlc_high :: pyfloat
  ohlc_low :: pyfloat
  ohlc_close :: pyfloat

text \<open>
  What the alert mail is composed from: the addressee and the values the subject and the
  body print.
\<close>

record alert_mail =
  mail_to :: jval
  mail_severity :: string
  mail_symbol :: jval
  mail_price :: pyfloat
  mail_direction :: jval
  mail_threshold :: pyfloat

text \<open>
  Everything one run of the program gets from outside: the environment variables, what
  the interpreter's \<open>float\<close> and \<open>int\<close> make of a text (\<open>None\<close> for \<open>ValueError\<close>; rounding
  is not modelled), the history the provider returns for a ticker, whether the store
  answers the read of the rules and accepts an upsert or a rule update, whether the SMTP
  session goes through, and the clock.
\<close>

record world =
  environ :: "string \<rightharpoonup> string"
  float_of_str :: "string \<Rightarrow> pyfloat option"
  int_of_str :: "string \<Rightarrow> int option"
  load_ok :: bool
  history :: "string \<Rightarrow> py_error + bar list"
  upsert_ok :: "ohlc \<Rightarrow> bool"
  update_ok :: "jval \<Rightarrow> bool"
  smtp_ok :: "alert_mail \<Rightarrow> bool"
  utc_now :: string

text \<open>\<open>float(x)\<close> on a cell.\<close>

fun py_float :: "world \<Rightarrow> jval \<Rightarrow> py_error + pyfloat" where
  "py_float w JNull = Inl TypeError"
| "py_float w (JBool b) = Inr (Fin (if b then 1 else 0))"
| "py_float w (JNum f) = Inr f"
| "py_float w (JStr s) = (case float_of_str w s of None \<Rightarrow> Inl ValueError | Some f \<Rightarrow> Inr f)"

subsection \<open>The builtin \<open>int\<close> on a text\<close>

text \<open>
  A text is held as the bytes of its UTF-8 encoding, as the store and the environment hold
  it. On an ASCII text of at most 640 characters \<open>int\<close> is computed here: the blanks 9 to
  13 and 32 are stripped at both ends, then comes an optional sign, then digits with
  single underscores allowed between two of them. What \<open>int\<close> makes of any other text
  (the blanks and digits of Unicode, the interpreter's limit on the number of digits) is
  the world's \<open>int_of_str\<close>.
\<close>

definition is_ascii :: "string \<Rightarrow> bool" where
  "is_ascii s = list_all (\<lambda>c. (of_char c :: nat) < 128) s"

definition is_space :: "char \<Rightarrow> bool" where
  "is_space c = (of_char c \<in> {9, 10, 11, 12, 13, 32 :: nat})"

definition is_digit :: "char \<Rightarrow> bool" where
  "is_digit c = (48 \<le> (of_char c :: nat) \<and> (of_char c :: nat) \<le> 57)"

definition strip :: "string \<Rightarrow> string" where
  "strip s = rev (dropWhile is_space (rev (dropWhile is_space s)))"

fun valid_digits :: "string \<Rightarrow> bool" where
  "valid_digits [] = False"
| "valid_digits [c] = is_digit c"
| "valid_digits (c # d # r) =
     (is_digit c \<and> (if d = CHR ''_'' then valid_digits r else valid_digits (d # r)))"

definition digits_val :: "string \<Rightarrow> nat" where
  "digits_val s = foldl (\<lambda>acc c. 10 * acc + (of_char c - 48)) 0 s"

definition ascii_int :: "string \<Rightarrow> int option" where
  "ascii_int s =
     (let t = strip s;
          neg = (t \<noteq> [] \<and> hd t = CHR ''-'');
          body = (if t \<noteq> [] \<and> (hd t = CHR ''-'' \<or> hd t = CHR ''+'') then tl t else t)
      in if valid_digits body
         then Some ((if neg then - 1 else 1) * int (digits_val (filter (\<lambda>c. c \<noteq> CHR ''_'') body)))
         else None)"

definition py_int :: "world \<Rightarrow> string \<Rightarrow> int option" where
  "py_int w s = (if is_ascii s \<and> length s \<le> 640 then ascii_int s else int_of_str w s)"

section \<open>State: the two tables and what the run did\<close>

datatype event =
    FetchCall string string
  | FetchError string
  | UpsertCall ohlc
  | NoRules
  | SkipNoPrice jval jval
  | SkipDirection jval jval
  | RuleLine jval bool bool
  | SendCall jval alert_mail
  | MailWarn
  | SmtpAttempt string int alert_mail
  | MailSent jval
  | MailError
  | UpdateCall jval row
  | UpdateError jval

record state =
  rules_tbl :: "row list"
  prices_tbl :: "ohlc list"
  trace :: "event list"

definition emit :: "event \<Rightarrow> state \<Rightarrow> state" where
  "emit e st = st\<lparr>trace := trace st @ [e]\<rparr>"

section \<open>send_alert_email\<close>

definition getenv :: "world \<Rightarrow> string \<Rightarrow> string \<Rightarrow> string" where
  "getenv w k d = (case environ w k of None \<Rightarrow> d | Some v \<Rightarrow> v)"

text \<open>\<open>not x\<close> for the result of \<open>os.getenv(k)\<close>: unset or empty.\<close>

definition missing :: "string option \<Rightarrow> bool" where
  "missing x = (case x of None \<Rightarrow> True | Some v \<Rightarrow> v = [])"

text \<open>
  The port is converted before anything else. With the settings present the message is
  built before the \<open>try\<close>: the body, a text, encodes as UTF-8, the \<open>Subject\<close> and \<open>To\<close>
  headers are stored as they come, and \<open>formataddr\<close> encodes the sender's address as ASCII
  and raises on any other character. Only the SMTP session is inside the \<open>try\<close>.
\<close>

definition send_alert_email :: "world \<Rightarrow> alert_mail \<Rightarrow> state \<Rightarrow> (py_error + bool) \<times> state" where
  "send_alert_email w m st =
     (let host = getenv w ''SMTP_HOST'' ''smtp.gmail.com'' in
      case py_int w (getenv w ''SMTP_PORT'' ''587'') of
        None \<Rightarrow> (Inl ValueError, st)
      | Some port \<Rightarrow>
          let user = environ w ''SMTP_USER'';
              password = environ w ''SMTP_PASS'';
              from_email = (if missing (environ w ''FROM_EMAIL'') then user
                            else environ w ''FROM_EMAIL'')
          in if missing user \<or> missing password \<or> missing from_email
             then (Inr False, emit MailWarn st)
             else if \<not> is_ascii (the from_email)
             then (Inl UnicodeEncodeError, st)
             else let st1 = emit (SmtpAttempt host port m) st
                  in if smtp_ok w m then (Inr True, emit (MailSent (mail_to m)) st1)
                     else (Inr False, emit MailError st1))"

section \<open>evaluate_alerts\<close>

text \<open>
  \<open>load_enabled_alert_rules\<close>: the rows of \<open>alert_rules\<close> with \<open>enabled = true\<close>, in the
  order of the table. The read has no \<open>try\<close>: what the store raises leaves the function.
\<close>

definition load_enabled_alert_rules :: "world \<Rightarrow> state \<Rightarrow> py_error + row list" where
  "load_enabled_alert_rules w st =
     (if load_ok w
      then Inr (filter (\<lambda>r. map_of r ''enabled'' = Some (JBool True)) (rules_tbl st))
      else Inl StoreError)"

text \<open>
  \<open>.update(update_fields).eq("id", rule_id).execute()\<close> inside its \<open>try\<close>: the fields are
  set on every row with this id; when the store raises, the error is printed and nothing
  is written.
\<close>

definition set_fields :: "row \<Rightarrow> row \<Rightarrow> row" where
  "set_fields update_fields r = foldl (\<lambda>acc (k, v). AList.update k v acc) r update_fields"

definition update_rule :: "world \<Rightarrow> jval \<Rightarrow> row \<Rightarrow> state \<Rightarrow> state" where
  "update_rule w rule_id update_fields st =
     (let st1 = emit (UpdateCall rule_id update_fields) st
      in if update_ok w rule_id
         then st1\<lparr>rules_tbl :=
                map (\<lambda>r. if map_of r ''id'' = Some rule_id then set_fields update_fields r else r)
                    (rules_tbl st1)\<rparr>
         else emit (UpdateError rule_id) st1)"

text \<open>\<open>latest_close.get(symbol)\<close>: the keys of the map are texts.\<close>

definition price_of :: "(string \<rightharpoonup> pyfloat) \<Rightarrow> jval \<Rightarrow> pyfloat option" where
  "price_of latest_close symbol = (case symbol of JStr s \<Rightarrow> latest_close s | _ \<Rightarrow> None)"

text \<open>\<open>rule.get("severity") or "notice"\<close>.\<close>

definition severity_of :: "row \<Rightarrow> jval" where
  "severity_of rule = (if truthy (dict_get rule ''severity'') then dict_get rule ''severity''
                       else JStr ''notice'')"

text \<open>\<open>bool(last_result) if last_result is not None else False\<close>.\<close>

definition prev_result_of :: "row \<Rightarrow> bool" where
  "prev_result_of rule =
     (let last_result = dict_get rule ''last_result''
      in if last_result \<noteq> JNull then truthy last_result else False)"

text \<open>
  The body of the loop over the rules, from the price lookup on; \<open>severity.upper()\<close>
  raises when the severity is not a text.
\<close>

definition judge_rule ::
  "world \<Rightarrow> (string \<rightharpoonup> pyfloat) \<Rightarrow> row \<Rightarrow> jval \<Rightarrow> jval \<Rightarrow> jval \<Rightarrow> pyfloat \<Rightarrow> jval \<Rightarrow> state
     \<Rightarrow> py_error option \<times> state" where
  "judge_rule w latest_close rule rule_id symbol direction threshold email st =
     (case price_of latest_close symbol of
        None \<Rightarrow> (None, emit (SkipNoPrice rule_id symbol) st)
      | Some price \<Rightarrow>
          if direction = JStr ''>=''
          then
            let now_result = float_ge price threshold;
                prev_result = prev_result_of rule;
                st1 = emit (RuleLine rule_id prev_result now_result) st;
                update_fields = [(''last_result'', JBool now_result)]
            in if now_result \<and> \<not> prev_result
               then (case severity_of rule of
                       JStr severity \<Rightarrow>
                         let m = \<lparr>mail_to = email, mail_severity = severity, mail_symbol = symbol,
                                  mail_price = price, mail_direction = direction,
                                  mail_threshold = threshold\<rparr>
                         in (case send_alert_email w m (emit (SendCall rule_id m) st1) of
                               (Inl e, st2) \<Rightarrow> (Some e, st2)
                             | (Inr sent, st2) \<Rightarrow>
                                 (None, update_rule w rule_id
                                    (if sent
                                     then update_fields @ [(''last_triggered_at'', JStr (utc_now w))]
                                     else update_fields) st2))
                     | _ \<Rightarrow> (Some AttributeError, st1))
               else (None, update_rule w rule_id update_fields st1)
          else (None, emit (SkipDirection rule_id direction) st))"

text \<open>One turn of the loop: the reads of the rule's keys, then the body.\<close>

definition eval_rule ::
  "world \<Rightarrow> (string \<rightharpoonup> pyfloat) \<Rightarrow> row \<Rightarrow> state \<Rightarrow> py_error option \<times> state" where
  "eval_rule w latest_close rule st =
     (case getitem rule ''id'' of Inl e \<Rightarrow> (Some e, st) | Inr rule_id \<Rightarrow>
      case getitem rule ''symbol_code'' of Inl e \<Rightarrow> (Some e, st) | Inr symbol \<Rightarrow>
      case getitem rule ''direction'' of Inl e \<Rightarrow> (Some e, st) | Inr direction \<Rightarrow>
      case getitem rule ''threshold'' of Inl e \<Rightarrow> (Some e, st) | Inr tv \<Rightarrow>
      case py_float w tv of Inl e \<Rightarrow> (Some e, st) | Inr threshold \<Rightarrow>
      case getitem rule ''email'' of Inl e \<Rightarrow> (Some e, st) | Inr email \<Rightarrow>
        judge_rule w latest_close rule rule_id symbol direction threshold email st)"

text \<open>The \<open>for\<close> loop: an exception leaves it, and the rules after it are not reached.\<close>

fun eval_rules ::
  "world \<Rightarrow> (string \<rightharpoonup> pyfloat) \<Rightarrow> row list \<Rightarrow> state \<Rightarrow> py_error option \<times> state" where
  "eval_rules w latest_close [] st = (None, st)"
| "eval_rules w latest_close (rule # rest) st =
     (case eval_rule w latest_close rule st of
        (Some e, st') \<Rightarrow> (Some e, st')
      | (None, st') \<Rightarrow> eval_rules w latest_close rest st')"

definition evaluate_alerts ::
  "world \<Rightarrow> (string \<rightharpoonup> pyfloat) \<Rightarrow> state \<Rightarrow> py_error option \<times> state" where
  "evaluate_alerts w latest_close st =
     (case load_enabled_alert_rules w st of
        Inl e \<Rightarrow> (Some e, st)
      | Inr rules \<Rightarrow>
          if rules = [] then (None, emit NoRules st)
          else eval_rules w latest_close rules st)"

section \<open>fetch_latest_ohlc, upsert_ohlc and main\<close>

text \<open>
  The history of the last five days; an empty one raises \<open>RuntimeError\<close>, and whatever
  the provider raises goes up to the caller.
\<close>

definition fetch_latest_ohlc :: "world \<Rightarrow> string \<Rightarrow> string \<Rightarrow> py_error + ohlc" where
  "fetch_latest_ohlc w symbol_name yf_symbol =
     (case history w yf_symbol of
        Inl e \<Rightarrow> Inl e
      | Inr hist \<Rightarrow>
          if hist = [] then Inl RuntimeError
          else let latest = last hist
               in Inr \<lparr>ohlc_symbol = symbol_name, ohlc_date = bar_date latest,
                       ohlc_open = bar_open latest, ohlc_high = bar_high latest,
                       ohlc_low = bar_low latest, ohlc_close = bar_close latest\<rparr>)"

text \<open>Insert, or replace the row with the same symbol and date.\<close>

definition same_key :: "ohlc \<Rightarrow> ohlc \<Rightarrow> bool" where
  "same_key a b = (ohlc_symbol a = ohlc_symbol b \<and> ohlc_date a = ohlc_date b)"

definition upsert_row :: "ohlc \<Rightarrow> ohlc list \<Rightarrow> ohlc list" where
  "upsert_row x tbl =
     (if list_ex (same_key x) tbl then map (\<lambda>y. if same_key x y then x else y) tbl
      else tbl @ [x])"

text \<open>\<open>upsert_ohlc\<close> has no \<open>try\<close>: what the store raises leaves the function.\<close>

definition upsert_ohlc :: "world \<Rightarrow> ohlc \<Rightarrow> state \<Rightarrow> py_error option \<times> state" where
  "upsert_ohlc w x st =
     (let st1 = emit (UpsertCall x) st
      in if upsert_ok w x then (None, st1\<lparr>prices_tbl := upsert_row x (prices_tbl st1)\<rparr>)
         else (Some StoreError, st1))"

definition INDEX_TICKERS :: "(string \<times> string) list" where
  "INDEX_TICKERS = [(''VIX'', ''^VIX''), (''NIKKEI_VI'', ''^NKVI.OS'')]"

text \<open>
  The loop of \<open>main\<close> over the tickers: only the fetch is inside the \<open>try\<close>; the upsert
  and the entry in \<open>latest_close\<close> follow it.
\<close>

fun ingest ::
  "world \<Rightarrow> (string \<times> string) list \<Rightarrow> (string \<rightharpoonup> pyfloat) \<Rightarrow> state
     \<Rightarrow> (py_error + (string \<rightharpoonup> pyfloat)) \<times> state" where
  "ingest w [] latest_close st = (Inr latest_close, st)"
| "ingest w ((logical_name, yf_symbol) # rest) latest_close st =
     (let st0 = emit (FetchCall logical_name yf_symbol) st
      in case fetch_latest_ohlc w logical_name yf_symbol of
           Inl e \<Rightarrow> ingest w rest latest_close (emit (FetchError logical_name) st0)
         | Inr x \<Rightarrow>
             (case upsert_ohlc w x st0 of
                (Some e, st1) \<Rightarrow> (Inl e, st1)
              | (None, st1) \<Rightarrow>
                  ingest w rest (latest_close(logical_name \<mapsto> ohlc_close x)) st1))"

definition main_on :: "world \<Rightarrow> (string \<times> string) list \<Rightarrow> state \<Rightarrow> py_error option \<times> state" where
  "main_on w tickers st =
     (case ingest w tickers Map.empty st of
        (Inl e, st1) \<Rightarrow> (Some e, st1)
      | (Inr latest_close, st1) \<Rightarrow> evaluate_alerts w latest_close st1)"

definition main :: "world \<Rightarrow> state \<Rightarrow> py_error option \<times> state" where
  "main w st = main_on w INDEX_TICKERS st"

text \<open>
  The map the loop of \<open>main\<close> is to return when no write fails: an entry for each ticker
  whose fetch succeeds, none for the others.
\<close>

fun collected :: "world \<Rightarrow> (string \<times> string) list \<Rightarrow> (string \<rightharpoonup> pyfloat) \<Rightarrow> (string \<rightharpoonup> pyfloat)" where
  "collected w [] latest_close = latest_close"
| "collected w ((logical_name, yf_symbol) # rest) latest_close =
     (case fetch_latest_ohlc w logical_name yf_symbol of
        Inl e \<Rightarrow> collected w rest latest_close
      | Inr x \<Rightarrow> collected w rest (latest_close(logical_name \<mapsto> ohlc_close x)))"

section \<open>The shape of a rule, and what is read off a trace\<close>

text \<open>
  The alert rule as the data model types it: an id, texts for symbol, direction and
  email, a number for the threshold, a text or nothing for the severity, a boolean or
  nothing for \<open>last_result\<close>.
\<close>

definition is_text :: "jval \<Rightarrow> bool" where
  "is_text v = (case v of JStr _ \<Rightarrow> True | _ \<Rightarrow> False)"

definition well_formed_rule :: "row \<Rightarrow> bool" where
  "well_formed_rule r =
     ((case map_of r ''id'' of None \<Rightarrow> False | Some v \<Rightarrow> v \<noteq> JNull) \<and>
      (case map_of r ''symbol_code'' of None \<Rightarrow> False | Some v \<Rightarrow> is_text v) \<and>
      (case map_of r ''direction'' of None \<Rightarrow> False | Some v \<Rightarrow> is_text v) \<and>
      (case map_of r ''threshold'' of Some (JNum _) \<Rightarrow> True | _ \<Rightarrow> False) \<and>
      (case map_of r ''email'' of None \<Rightarrow> False | Some v \<Rightarrow> is_text v) \<and>
      (case dict_get r ''severity'' of JNull \<Rightarrow> True | JStr _ \<Rightarrow> True | _ \<Rightarrow> False) \<and>
      (case dict_get r ''last_result'' of JNull \<Rightarrow> True | JBool _ \<Rightarrow> True | _ \<Rightarrow> False))"

text \<open>The threshold of a rule as the loop reads it, for a rule of that shape.\<close>

definition threshold_of :: "row \<Rightarrow> pyfloat" where
  "threshold_of r = (case dict_get r ''threshold'' of JNum t \<Rightarrow> t | _ \<Rightarrow> NaN)"

definition severity_text :: "row \<Rightarrow> string" where
  "severity_text r = (case severity_of r of JStr s \<Rightarrow> s | _ \<Rightarrow> [])"

text \<open>The mail the loop composes for a rule at a price.\<close>

definition alert_for :: "row \<Rightarrow> pyfloat \<Rightarrow> alert_mail" where
  "alert_for r price =
     \<lparr>mail_to = dict_get r ''email'', mail_severity = severity_text r,
      mail_symbol = dict_get r ''symbol_code'', mail_price = price,
      mail_direction = dict_get r ''direction'', mail_threshold = threshold_of r\<rparr>"

text \<open>The calls of \<open>send_alert_email\<close>, of the store's update and of the SMTP transport.\<close>

fun notifications :: "event list \<Rightarrow> (jval \<times> alert_mail) list" where
  "notifications [] = []"
| "notifications (SendCall i m # es) = (i, m) # notifications es"
| "notifications (_ # es) = notifications es"

fun updates :: "event list \<Rightarrow> (jval \<times> row) list" where
  "updates [] = []"
| "updates (UpdateCall i f # es) = (i, f) # updates es"
| "updates (_ # es) = updates es"

fun smtp_attempts :: "event list \<Rightarrow> alert_mail list" where
  "smtp_attempts [] = []"
| "smtp_attempts (SmtpAttempt h p m # es) = m # smtp_attempts es"
| "smtp_attempts (_ # es) = smtp_attempts es"

text \<open>The events in which a rule is notified or written to.\<close>

fun touches :: "jval \<Rightarrow> event \<Rightarrow> bool" where
  "touches i (SendCall j m) = (j = i)"
| "touches i (UpdateCall j f) = (j = i)"
| "touches i _ = False"

text \<open>The stored rows of one rule.\<close>

definition rows_of :: "jval \<Rightarrow> row list \<Rightarrow> row list" where
  "rows_of rule_id tbl = filter (\<lambda>r. map_of r ''id'' = Some rule_id) tbl"

text \<open>A rule is enabled when the filter of \<open>load_enabled_alert_rules\<close> lets it through.\<close>

definition enabled :: "row \<Rightarrow> bool" where
  "enabled r = (map_of r ''enabled'' = Some (JBool True))"

text \<open>
  What one pass observes of a rule's condition: nothing when its symbol has no price or its
  direction is not \<open>>=\<close>, the value of \<open>price >= threshold\<close> otherwise.
\<close>

definition observed :: "(string \<rightharpoonup> pyfloat) \<Rightarrow> row \<Rightarrow> bool option" where
  "observed latest_close r =
     (case price_of latest_close (dict_get r ''symbol_code'') of
        None \<Rightarrow> None
      | Some price \<Rightarrow>
          if dict_get r ''direction'' = JStr ''>='' then Some (float_ge price (threshold_of r))
          else None)"

text \<open>A pass whose read of the rules fails observes nothing of any rule.\<close>

definition pass_observed :: "world \<times> (string \<rightharpoonup> pyfloat) \<Rightarrow> row \<Rightarrow> bool option" where
  "pass_observed p r = (if load_ok (fst p) then observed (snd p) r else None)"

text \<open>
  A sequence of evaluation passes, one process run after the other over the same store,
  each in its own world and with the prices it collected; and, for a rule id, the number
  of calls of \<open>send_alert_email\<close> each pass adds.
\<close>

definition sends_for :: "jval \<Rightarrow> event list \<Rightarrow> nat" where
  "sends_for i tr = length (filter (\<lambda>p. fst p = i) (notifications tr))"

fun pass_notifications ::
  "jval \<Rightarrow> (world \<times> (string \<rightharpoonup> pyfloat)) list \<Rightarrow> state \<Rightarrow> nat list" where
  "pass_notifications i [] st = []"
| "pass_notifications i ((w, latest_close) # ps) st =
     (let st' = snd (evaluate_alerts w latest_close st)
      in (sends_for i (trace st') - sends_for i (trace st)) # pass_notifications i ps st')"

text \<open>
  The rising edges of a sequence of observations, as the specification words them: a pass
  counts one when it observes the condition true and the observation before it (the
  stored result, for the first) was false; a pass that observes nothing counts none and
  leaves the last observation standing.
\<close>

fun rising_edges :: "bool \<Rightarrow> bool option list \<Rightarrow> nat list" where
  "rising_edges prev [] = []"
| "rising_edges prev (None # obs) = 0 # rising_edges prev obs"
| "rising_edges prev (Some now # obs) = (if now \<and> \<not> prev then 1 else 0) # rising_edges now obs"

text \<open>Two rows that differ at most in the two fields the loop writes.\<close>

definition same_rule :: "row \<Rightarrow> row \<Rightarrow> bool" where
  "same_rule a b =
     ((\<forall>k. k \<noteq> ''last_result'' \<and> k \<noteq> ''last_triggered_at'' \<longrightarrow> map_of b k = map_of a k) \<and>
      (map_of b ''last_result'' = map_of a ''last_result'' \<or>
       (\<exists>v. map_of b ''last_result'' = Some (JBool v))))"

text \<open>\<open>int\<close> does not raise on the port setting.\<close>

definition port_valid :: "world \<Rightarrow> bool" where
  "port_valid w = (py_int w (getenv w ''SMTP_PORT'' ''587'') \<noteq> None)"

text \<open>
  The settings with which \<open>send_alert_email\<close> returns a boolean, whatever the mail: the
  port converts, and a setting is missing or the sender's address is ASCII.
\<close>

definition send_returns :: "world \<Rightarrow> bool" where
  "send_returns w =
     (let user = environ w ''SMTP_USER'';
          password = environ w ''SMTP_PASS'';
          from_email = (if missing (environ w ''FROM_EMAIL'') then user
                        else environ w ''FROM_EMAIL'')
      in port_valid w \<and>
         (missing user \<or> missing password \<or> missing from_email \<or> is_ascii (the from_email)))"

text \<open>
  What a call of \<open>send_alert_email\<close> reports and what it adds to the trace, read off the
  function itself on an empty state.
\<close>

definition blank :: state where
  "blank = \<lparr>rules_tbl = [], prices_tbl = [], trace = []\<rparr>"

definition send_result :: "world \<Rightarrow> alert_mail \<Rightarrow> py_error + bool" where
  "send_result w m = fst (send_alert_email w m blank)"

definition send_events :: "world \<Rightarrow> alert_mail \<Rightarrow> event list" where
  "send_events w m = trace (snd (send_alert_email w m blank))"

definition record_all :: "event list \<Rightarrow> state \<Rightarrow> state" where
  "record_all evs st = st\<lparr>trace := trace st @ evs\<rparr>"

section \<open>A small world to run the program in\<close>

definition demo_world :: world where
  "demo_world =
     \<lparr>environ = [''SMTP_USER'' \<mapsto> ''alerts@example.org'', ''SMTP_PASS'' \<mapsto> ''secret''],
      float_of_str = (\<lambda>_. None),
      int_of_str = (\<lambda>_. None),
      load_ok = True,
      history = (\<lambda>y. if y = ''^VIX'' then Inr [\<lparr>bar_date = ''2024-05-02'', bar_open = Fin 24,
                        bar_high = Fin 26, bar_low = Fin 23, bar_close = Fin 25\<rparr>]
                      else Inr []),
      upsert_ok = (\<lambda>_. True),
      update_ok = (\<lambda>_. True),
      smtp_ok = (\<lambda>_. True),
      utc_now = ''2024-05-03T00:00:00+00:00''\<rparr>"

definition demo_rule :: row where
  "demo_rule =
     [(''id'', JNum (Fin 1)), (''symbol_code'', JStr ''VIX''), (''direction'', JStr ''>=''),
      (''threshold'', JNum (Fin 20)), (''email'', JStr ''me@example.org''),
      (''enabled'', JBool True), (''last_result'', JNull), (''last_triggered_at'', JNull)]"

definition demo_state :: state where
  "demo_state = \<lparr>rules_tbl = [demo_rule], prices_tbl = [], trace = []\<rparr>"

text \<open>The same world with no mail settings, and a rule whose row has no \<open>email\<close>.\<close>

definition bare_world :: world where
  "bare_world = demo_world\<lparr>environ := Map.empty\<rparr>"

text \<open>No mail settings but a port that is not a number.\<close>

definition garbled_port_world :: world where
  "garbled_port_world = demo_world\<lparr>environ := [''SMTP_PORT'' \<mapsto> ''abc'']\<rparr>"

text \<open>The mail settings present, with a sender's address that is not ASCII.\<close>

definition umlaut_sender_world :: world where
  "umlaut_sender_world =
     demo_world\<lparr>environ := [''SMTP_USER'' \<mapsto> ''m'' @ [CHR 0xC3, CHR 0xBC] @ ''ller@example.org'',
                            ''SMTP_PASS'' \<mapsto> ''secret'']\<rparr>"

definition broken_rule :: row where
  "broken_rule =
     [(''id'', JNum (Fin 2)), (''symbol_code'', JStr ''VIX''), (''direction'', JStr ''>=''),
      (''threshold'', JNum (Fin 20)), (''enabled'', JBool True)]"

text \<open>A rule with a direction the loop does not know.\<close>

definition le_rule :: row where
  "le_rule =
     [(''id'', JNum (Fin 3)), (''symbol_code'', JStr ''VIX''), (''direction'', JStr ''<=''),
      (''threshold'', JNum (Fin 20)), (''email'', JStr ''me@example.org''),
      (''enabled'', JBool True), (''last_result'', JNull), (''last_triggered_at'', JNull)]"

text \<open>A world in which both tickers have a history and the price store refuses every upsert.\<close>

definition store_down_world :: world where
  "store_down_world =
     demo_world\<lparr>history := (\<lambda>_. Inr [\<lparr>bar_date = ''2024-05-02'', bar_open = Fin 24,
                                         bar_high = Fin 26, bar_low = Fin 23, bar_close = Fin 25\<rparr>]),
                upsert_ok := (\<lambda>_. False)\<rparr>"

text \<open>A world whose rule store refuses every update.\<close>

definition update_down_world :: world where
  "update_down_world = demo_world\<lparr>update_ok := (\<lambda>_. False)\<rparr>"

section \<open>Reading traces and states\<close>

lemma notifications_append: "notifications (a @ b) = notifications a @ notifications b"
  by (induction a rule: notifications.induct) simp_all

lemma updates_append: "updates (a @ b) = updates a @ updates b"
  by (induction a rule: updates.induct) simp_all

lemma smtp_attempts_append: "smtp_attempts (a @ b) = smtp_attempts a @ smtp_attempts b"
  by (induction a rule: smtp_attempts.induct) simp_all

lemma record_all_simps:
  "trace (record_all evs st) = trace st @ evs"
  "rules_tbl (record_all evs st) = rules_tbl st"
  "prices_tbl (record_all evs st) = prices_tbl st"
  "record_all evs (record_all evs' st) = record_all (evs' @ evs) st"
  "emit e st = record_all [e] st"
  by (simp_all add: record_all_def emit_def)

lemma update_rule_trace:
  "trace (update_rule w i f st) =
     trace st @ UpdateCall i f # (if update_ok w i then [] else [UpdateError i])"
  by (simp add: update_rule_def emit_def Let_def)

lemma update_rule_tbl:
  "rules_tbl (update_rule w i f st) =
     (if update_ok w i
      then map (\<lambda>r. if map_of r ''id'' = Some i then set_fields f r else r) (rules_tbl st)
      else rules_tbl st)"
  by (simp add: update_rule_def emit_def Let_def)

lemma update_rule_prices: "prices_tbl (update_rule w i f st) = prices_tbl st"
  by (simp add: update_rule_def emit_def Let_def)

text \<open>Setting fields on a stored row: the later field wins, the other keys stay.\<close>

lemma map_of_set_fields: "map_of (set_fields fs x) = map_of x ++ map_of (rev fs)"
proof (induction fs arbitrary: x)
  case Nil
  then show ?case by (simp add: set_fields_def)
next
  case (Cons a fs)
  obtain k v where a: "a = (k, v)" by (cases a)
  have "set_fields (a # fs) x = set_fields fs (AList.update k v x)"
    by (simp add: set_fields_def a)
  then show ?case
    using Cons.IH[of "AList.update k v x"]
    by (simp add: a update_conv' map_add_upd_left map_add_def fun_eq_iff split: option.splits)
qed

section \<open>The notification call\<close>

text \<open>Neither what the call reports nor what it records depends on the state it runs in.\<close>

lemma send_alert_email_eq:
  "send_alert_email w m st = (send_result w m, record_all (send_events w m) st)"
  by (simp add: send_alert_email_def send_result_def send_events_def record_all_def blank_def
      emit_def Let_def split: option.splits)

lemma send_events_quiet:
  "notifications (send_events w m) = []" "updates (send_events w m) = []"
  by (simp_all add: send_alert_email_def send_events_def blank_def emit_def Let_def
      split: option.splits)

text \<open>\<open>send_returns\<close> says of the settings what it is named for.\<close>

lemma send_returns_iff: "send_returns w \<longleftrightarrow> \<not> isl (send_result w m)"
  by (simp add: send_returns_def port_valid_def send_result_def send_alert_email_def Let_def
      split: option.splits)

lemma send_returns_reports: "send_returns w \<Longrightarrow> \<exists>b. send_result w m = Inr b"
  using send_returns_iff[of w m] by (cases "send_result w m") simp_all

lemma send_missing_credentials:
  assumes "missing (environ w ''SMTP_USER'') \<or> missing (environ w ''SMTP_PASS'')"
  shows "smtp_attempts (send_events w m) = []"
    and "port_valid w \<Longrightarrow> send_result w m = Inr False"
    and "port_valid w \<Longrightarrow> send_events w m = [MailWarn]"
  using assms
  by (auto simp: send_alert_email_def send_events_def send_result_def blank_def emit_def Let_def
      port_valid_def split: option.splits)

section \<open>One turn of the loop over the rules\<close>

lemma eval_rule_well_formed:
  assumes "well_formed_rule r"
  shows "eval_rule w lc r st =
           judge_rule w lc r (dict_get r ''id'') (dict_get r ''symbol_code'')
             (dict_get r ''direction'') (threshold_of r) (dict_get r ''email'') st"
  using assms
  by (auto simp: well_formed_rule_def eval_rule_def getitem_def dict_get_def threshold_of_def
           split: option.splits jval.splits)

lemma severity_well_formed:
  assumes "well_formed_rule r"
  shows "severity_of r = JStr (severity_text r)"
  using assms
  by (auto simp: well_formed_rule_def severity_of_def severity_text_def split: jval.splits)

text \<open>A rule of the typed shape with a price and the direction \<open>>=\<close>, in one equation.\<close>

lemma eval_rule_judged:
  assumes wf: "well_formed_rule r"
    and price: "price_of lc (dict_get r ''symbol_code'') = Some price"
    and dir: "dict_get r ''direction'' = JStr ''>=''"
  shows "eval_rule w lc r st =
     (let rid = dict_get r ''id''; now_result = float_ge price (threshold_of r);
          line = RuleLine rid (prev_result_of r) now_result
      in if now_result \<and> \<not> prev_result_of r
         then (let st2 = record_all (line # SendCall rid (alert_for r price)
                                      # send_events w (alert_for r price)) st
               in case send_result w (alert_for r price) of
                    Inl e \<Rightarrow> (Some e, st2)
                  | Inr sent \<Rightarrow>
                      (None, update_rule w rid
                         ((''last_result'', JBool now_result) #
                          (if sent then [(''last_triggered_at'', JStr (utc_now w))] else []))
                         st2))
         else (None, update_rule w rid [(''last_result'', JBool now_result)]
                       (record_all [line] st)))"
  by (simp add: eval_rule_well_formed[OF wf] judge_rule_def price dir Let_def
        severity_well_formed[OF wf] alert_for_def record_all_simps send_alert_email_eq
        split: sum.splits)

lemma float_ge_refl: "x \<noteq> NaN \<Longrightarrow> float_ge x x"
  by (cases x) simp_all

lemmas demo_defs = demo_world_def demo_rule_def demo_state_def dict_get_def well_formed_rule_def
  is_text_def price_of_def threshold_of_def prev_result_of_def alert_for_def severity_text_def
  severity_of_def

lemmas py_int_defs = py_int_def ascii_int_def is_ascii_def strip_def is_space_def is_digit_def
  digits_val_def getenv_def port_valid_def

lemma demo_rule_facts:
  "well_formed_rule demo_rule"
  "price_of [''VIX'' \<mapsto> p] (dict_get demo_rule ''symbol_code'') = Some p"
  "dict_get demo_rule ''direction'' = JStr ''>=''"
  "threshold_of demo_rule = Fin 20"
  "\<not> prev_result_of demo_rule"
  "dict_get demo_rule ''id'' = JNum (Fin 1)"
  "dict_get demo_rule ''last_result'' = JNull"
  "trace demo_state = []"
  "rules_tbl demo_state = [demo_rule]"
  by (simp_all add: demo_defs)

lemma demo_world_sends: "send_result demo_world m = Inr True"
  by (simp add: send_result_def send_alert_email_def demo_world_def py_int_defs missing_def Let_def)

lemma demo_world_returns: "send_returns demo_world" "load_ok demo_world" "update_ok demo_world i"
  by (simp_all add: send_returns_def demo_world_def py_int_defs missing_def Let_def)

text \<open>What the loop reads off a rule of the typed shape, in terms of the stored cells.\<close>

lemma prev_result_stored:
  assumes "well_formed_rule r"
  shows "prev_result_of r = (dict_get r ''last_result'' = JBool True)"
  using assms
  by (auto simp: well_formed_rule_def prev_result_of_def Let_def split: jval.splits)

lemma threshold_stored:
  assumes "well_formed_rule r"
  shows "dict_get r ''threshold'' = JNum (threshold_of r)"
  using assms
  by (auto simp: well_formed_rule_def threshold_of_def dict_get_def split: option.splits jval.splits)

lemma float_ge_cases:
  "float_ge (Fin p) (Fin t) = (t \<le> p)"
  "x = NaN \<or> y = NaN \<Longrightarrow> \<not> float_ge x y"
  "x \<noteq> NaN \<Longrightarrow> y \<noteq> NaN \<Longrightarrow> x = PInf \<or> y = NInf \<Longrightarrow> float_ge x y"
  "x \<noteq> PInf \<Longrightarrow> y = PInf \<Longrightarrow> \<not> float_ge x y"
  "x = NInf \<Longrightarrow> y \<noteq> NInf \<Longrightarrow> \<not> float_ge x y"
  by (cases x; cases y; simp)+

section \<open>What is written back\<close>

text \<open>
  When the notification call returns, or is not made: one update call for the rule, with
  \<open>last_result = now\<close> and, exactly when the call was made and reported success,
  \<open>last_triggered_at\<close>.
\<close>

lemma persisted_when_send_returns:
  assumes wf: "well_formed_rule r"
    and price: "price_of latest_close (dict_get r ''symbol_code'') = Some price"
    and dir: "dict_get r ''direction'' = JStr ''>=''"
    and reported: "float_ge price (threshold_of r) \<and> \<not> prev_result_of r \<longrightarrow>
                   send_result w (alert_for r price) = Inr sent"
  shows "let st' = snd (eval_rule w latest_close r st);
             rule_id = dict_get r ''id'';
             now_result = float_ge price (threshold_of r);
             success = (now_result \<and> \<not> prev_result_of r \<and> sent);
             update_fields = (''last_result'', JBool now_result) #
                (if success then [(''last_triggered_at'', JStr (utc_now w))] else [])
         in fst (eval_rule w latest_close r st) = None \<and>
            updates (trace st') = updates (trace st) @ [(rule_id, update_fields)] \<and>
            rules_tbl st' =
              (if update_ok w rule_id
               then map (\<lambda>x. if map_of x ''id'' = Some rule_id then set_fields update_fields x else x)
                      (rules_tbl st)
               else rules_tbl st) \<and>
            (\<forall>x. map_of (set_fields update_fields x) ''last_result'' = Some (JBool now_result) \<and>
                 map_of (set_fields update_fields x) ''last_triggered_at'' =
                   (if success then Some (JStr (utc_now w)) else map_of x ''last_triggered_at''))"
  using reported
  by (auto simp: eval_rule_judged[OF wf price dir] Let_def record_all_simps update_rule_trace
        update_rule_tbl updates_append send_events_quiet map_of_set_fields split: sum.splits)

text \<open>
  Claim C3 asks that \<open>last_result = now\<close> be written for every rule that is evaluated,
  whatever became of the notification. \<open>evaluate_alerts\<close> calls \<open>send_alert_email\<close> with
  no \<open>try\<close>, and \<open>send_alert_email\<close> converts the port and builds the message outside
  its own: with a port text that is no number, or with a sender's address that is not
  ASCII, the call raises, the exception leaves \<open>evaluate_alerts\<close> before the update, and
  the rule that was evaluated, its edge fired and its notification attempted, keeps its
  stored \<open>last_result\<close>.
\<close>

theorem raising_send_skips_update:
  "price_of [''VIX'' \<mapsto> Fin 25] (dict_get demo_rule ''symbol_code'') = Some (Fin 25) \<and>
   dict_get demo_rule ''direction'' = JStr ''>='' \<and>
   dict_get demo_rule ''threshold'' = JNum (Fin 20) \<and>
   dict_get demo_rule ''last_result'' = JNull \<and>
   evaluate_alerts garbled_port_world [''VIX'' \<mapsto> Fin 25] demo_state =
     (Some ValueError,
      record_all [RuleLine (JNum (Fin 1)) False True,
                  SendCall (JNum (Fin 1)) (alert_for demo_rule (Fin 25))] demo_state) \<and>
   evaluate_alerts umlaut_sender_world [''VIX'' \<mapsto> Fin 25] demo_state =
     (Some UnicodeEncodeError,
      record_all [RuleLine (JNum (Fin 1)) False True,
                  SendCall (JNum (Fin 1)) (alert_for demo_rule (Fin 25))] demo_state) \<and>
   rules_tbl (record_all [RuleLine (JNum (Fin 1)) False True,
                  SendCall (JNum (Fin 1)) (alert_for demo_rule (Fin 25))] demo_state) = [demo_rule] \<and>
   updates [RuleLine (JNum (Fin 1)) False True,
            SendCall (JNum (Fin 1)) (alert_for demo_rule (Fin 25))] = []"
  by code_simp

text \<open>
  Claim C7. A rule of the typed shape whose \<open>last_result\<close> is unset (the key is absent or
  null) starts from \<open>prev = False\<close>: when it has a price, the direction \<open>>=\<close> and
  \<open>price >= threshold\<close>, this first evaluation calls \<open>send_alert_email\<close> for it.
\<close>

theorem first_evaluation_notifies:
  assumes wf: "well_formed_rule r"
    and price: "price_of latest_close (dict_get r ''symbol_code'') = Some price"
    and dir: "dict_get r ''direction'' = JStr ''>=''"
    and unset: "dict_get r ''last_result'' = JNull"
    and met: "float_ge price (threshold_of r)"
  shows "\<not> prev_result_of r \<and>
         notifications (trace (snd (eval_rule w latest_close r st))) =
           notifications (trace st) @ [(dict_get r ''id'', alert_for r price)]"
proof -
  have prev: "\<not> prev_result_of r"
    by (simp add: prev_result_of_def unset)
  show ?thesis
    using prev met
    by (auto simp: eval_rule_judged[OF wf price dir] Let_def record_all_simps update_rule_trace
        notifications_append send_events_quiet split: sum.splits)
qed


theorem first_evaluation_notifies_witness:
  "well_formed_rule demo_rule \<and>
   price_of [''VIX'' \<mapsto> Fin 30] (dict_get demo_rule ''symbol_code'') = Some (Fin 30) \<and>
   dict_get demo_rule ''direction'' = JStr ''>='' \<and>
   dict_get demo_rule ''last_result'' = JNull \<and>
   float_ge (Fin 30) (threshold_of demo_rule) \<and>
   notifications (trace (snd (eval_rule demo_world [''VIX'' \<mapsto> Fin 30] demo_rule demo_state))) =
     [(JNum (Fin 1), alert_for demo_rule (Fin 30))]"
proof -
  note h = demo_rule_facts(1) demo_rule_facts(2)[of "Fin 30"] demo_rule_facts(3) demo_rule_facts(7)
  have met: "float_ge (Fin 30) (threshold_of demo_rule)"
    by (simp add: demo_rule_facts)
  from first_evaluation_notifies[OF h met, of demo_world demo_state]
  show ?thesis using h met by (simp add: demo_rule_facts)
qed

section \<open>Missing mail settings\<close>

lemma bare_world_facts:
  "missing (environ bare_world ''SMTP_USER'')" "port_valid bare_world"
  "update_ok bare_world i"
  by (simp_all add: bare_world_def demo_world_def missing_def py_int_defs)

text \<open>
  With \<open>SMTP_USER\<close> or \<open>SMTP_PASS\<close> unset or empty, whatever \<open>FROM_EMAIL\<close> holds, no SMTP
  session is opened; and when \<open>int\<close> takes the port setting, the call prints its warning
  and returns \<open>False\<close>, and a rule whose edge fires gets one update call with
  \<open>last_result = True\<close> alone.
\<close>

lemma missing_credentials_no_mail:
  assumes creds: "missing (environ w ''SMTP_USER'') \<or> missing (environ w ''SMTP_PASS'')"
  shows "smtp_attempts (trace (snd (send_alert_email w m st))) = smtp_attempts (trace st) \<and>
         (port_valid w \<longrightarrow>
            send_alert_email w m st = (Inr False, emit MailWarn st) \<and>
            (\<forall>r latest_close price.
               well_formed_rule r \<and>
               price_of latest_close (dict_get r ''symbol_code'') = Some price \<and>
               dict_get r ''direction'' = JStr ''>='' \<and>
               float_ge price (threshold_of r) \<and> \<not> prev_result_of r \<longrightarrow>
               (let st' = snd (eval_rule w latest_close r st)
                in updates (trace st') =
                     updates (trace st) @ [(dict_get r ''id'', [(''last_result'', JBool True)])] \<and>
                   map (\<lambda>x. map_of x ''last_triggered_at'') (rules_tbl st') =
                     map (\<lambda>x. map_of x ''last_triggered_at'') (rules_tbl st) \<and>
                   smtp_attempts (trace st') = smtp_attempts (trace st))))"
proof (intro conjI impI allI)
  show "smtp_attempts (trace (snd (send_alert_email w m st))) = smtp_attempts (trace st)"
    by (simp add: send_alert_email_eq record_all_simps smtp_attempts_append
        send_missing_credentials(1)[OF creds])
next
  assume pv: "port_valid w"
  show "send_alert_email w m st = (Inr False, emit MailWarn st)"
    by (simp add: send_alert_email_eq send_missing_credentials(2,3)[OF creds pv] record_all_simps)
next
  fix r latest_close price
  assume pv: "port_valid w"
  assume h: "well_formed_rule r \<and>
       price_of latest_close (dict_get r ''symbol_code'') = Some price \<and>
       dict_get r ''direction'' = JStr ''>='' \<and>
       float_ge price (threshold_of r) \<and> \<not> prev_result_of r"
  then have wf: "well_formed_rule r"
    and price: "price_of latest_close (dict_get r ''symbol_code'') = Some price"
    and dir: "dict_get r ''direction'' = JStr ''>=''"
    and edge: "float_ge price (threshold_of r)" "\<not> prev_result_of r"
    by simp_all
  show "let st' = snd (eval_rule w latest_close r st)
        in updates (trace st') =
             updates (trace st) @ [(dict_get r ''id'', [(''last_result'', JBool True)])] \<and>
           map (\<lambda>x. map_of x ''last_triggered_at'') (rules_tbl st') =
             map (\<lambda>x. map_of x ''last_triggered_at'') (rules_tbl st) \<and>
           smtp_attempts (trace st') = smtp_attempts (trace st)"
    using edge
    by (simp add: eval_rule_judged[OF wf price dir] Let_def record_all_simps update_rule_trace
        update_rule_tbl updates_append smtp_attempts_append map_of_set_fields
        send_missing_credentials[OF creds] send_missing_credentials(2,3)[OF creds pv] o_def)
qed



text \<open>
  Claim C9 asks that \<open>send_alert_email\<close> return \<open>False\<close> whenever \<open>SMTP_USER\<close> or
  \<open>SMTP_PASS\<close> is unset. The function converts \<open>SMTP_PORT\<close> with \<open>int\<close> before it looks
  at the credentials and outside its \<open>try\<close>: with no credentials and a port text that is
  no number it raises \<open>ValueError\<close> instead; the exception leaves \<open>evaluate_alerts\<close> too,
  and the rule whose edge fired gets no update.
\<close>

theorem garbled_port_raises:
  "environ garbled_port_world ''SMTP_USER'' = None \<and>
   environ garbled_port_world ''SMTP_PASS'' = None \<and>
   send_alert_email garbled_port_world (alert_for demo_rule (Fin 25)) demo_state =
     (Inl ValueError, demo_state) \<and>
   float_ge (Fin 25) (threshold_of demo_rule) \<and> \<not> prev_result_of demo_rule \<and>
   fst (eval_rule garbled_port_world [''VIX'' \<mapsto> Fin 25] demo_rule demo_state) = Some ValueError \<and>
   updates (trace (snd (eval_rule garbled_port_world [''VIX'' \<mapsto> Fin 25] demo_rule demo_state))) = []"
  by code_simp

section \<open>The read of the rules\<close>

lemma evaluate_alerts_read:
  assumes "load_ok w"
  shows "evaluate_alerts w lc st =
           (if filter enabled (rules_tbl st) = [] then (None, emit NoRules st)
            else eval_rules w lc (filter enabled (rules_tbl st)) st)"
  using assms
  by (simp add: evaluate_alerts_def load_enabled_alert_rules_def enabled_def[abs_def])

lemma evaluate_alerts_unread:
  assumes "\<not> load_ok w"
  shows "evaluate_alerts w lc st = (Some StoreError, st)"
  using assms by (simp add: evaluate_alerts_def load_enabled_alert_rules_def)

section \<open>A rule without one of its keys\<close>

lemma eval_rules_abort:
  assumes "\<And>s. fst (eval_rule w lc r s) \<noteq> None"
  shows "eval_rules w lc (pre @ r # rest) st = eval_rules w lc (pre @ [r]) st"
proof (induction pre arbitrary: st)
  case Nil
  obtain e s' where "eval_rule w lc r st = (e, s')" by (cases "eval_rule w lc r st")
  moreover from this assms[of st] have "e \<noteq> None" by simp
  ultimately show ?case by (auto split: option.splits)
next
  case (Cons a pre)
  then show ?case by (simp split: prod.splits option.splits)
qed

lemma eval_rules_abort_error:
  assumes "\<And>s. fst (eval_rule w lc r s) \<noteq> None"
  shows "fst (eval_rules w lc (pre @ [r]) st) \<noteq> None"
proof (induction pre arbitrary: st)
  case Nil
  obtain e s' where "eval_rule w lc r st = (e, s')" by (cases "eval_rule w lc r st")
  moreover from this assms[of st] have "e \<noteq> None" by simp
  ultimately show ?case by (auto split: option.splits)
next
  case (Cons a pre)
  then show ?case by (simp split: prod.splits option.splits)
qed

text \<open>
  Claim C10. The loop reads \<open>id\<close>, \<open>symbol_code\<close>, \<open>direction\<close>, \<open>threshold\<close> and \<open>email\<close>
  of every rule before it looks at the price. A rule that lacks one of them (and whose
  threshold, when present, converts to a float) raises \<open>KeyError\<close> for a missing key with
  the state untouched, whatever \<open>latest_close\<close> holds; the exception leaves the loop, so
  neither this rule nor any rule after it is evaluated in the pass.
\<close>

theorem missing_key_aborts_pass:
  assumes key: "k \<in> set [''id'', ''symbol_code'', ''direction'', ''threshold'', ''email'']"
    and absent: "map_of r k = None"
    and thr: "\<forall>v. map_of r ''threshold'' = Some v \<longrightarrow> \<not> isl (py_float w v)"
  shows "\<exists>k' \<in> set [''id'', ''symbol_code'', ''direction'', ''threshold'', ''email''].
           map_of r k' = None \<and>
           (\<forall>s. eval_rule w latest_close r s = (Some (KeyError k'), s)) \<and>
           (\<forall>s. eval_rules w latest_close (r # rest) s = (Some (KeyError k'), s)) \<and>
           (load_enabled_alert_rules w st = Inr (pre @ r # rest) \<longrightarrow>
              evaluate_alerts w latest_close st = eval_rules w latest_close (pre @ [r]) st \<and>
              fst (evaluate_alerts w latest_close st) \<noteq> None)"
proof -
  have "\<exists>k' \<in> set [''id'', ''symbol_code'', ''direction'', ''threshold'', ''email''].
           map_of r k' = None \<and> (\<forall>s. eval_rule w latest_close r s = (Some (KeyError k'), s))"
    using key absent thr
    by (auto simp: eval_rule_def getitem_def split: option.splits sum.splits)
  then obtain k' where k': "k' \<in> set [''id'', ''symbol_code'', ''direction'', ''threshold'', ''email'']"
      "map_of r k' = None" "\<And>s. eval_rule w latest_close r s = (Some (KeyError k'), s)"
    by blast
  have err: "\<And>s. fst (eval_rule w latest_close r s) \<noteq> None"
    by (simp add: k'(3))
  have pass: "load_enabled_alert_rules w st = Inr (pre @ r # rest) \<Longrightarrow>
              evaluate_alerts w latest_close st = eval_rules w latest_close (pre @ [r]) st \<and>
              fst (evaluate_alerts w latest_close st) \<noteq> None"
    using eval_rules_abort[OF err, of pre rest st] eval_rules_abort_error[OF err, of pre st]
    by (simp add: evaluate_alerts_def Let_def)
  show ?thesis
    using k' pass by (intro bexI[of _ k']) auto
qed



theorem missing_key_aborts_pass_witness:
  "''email'' \<in> set [''id'', ''symbol_code'', ''direction'', ''threshold'', ''email''] \<and>
   map_of broken_rule ''email'' = None \<and>
   map_of broken_rule ''threshold'' = Some (JNum (Fin 20)) \<and>
   \<not> isl (py_float demo_world (JNum (Fin 20))) \<and>
   eval_rules demo_world Map.empty (broken_rule # [demo_rule]) demo_state =
     (Some (KeyError ''email''), demo_state)"
proof -
  have key: "''email'' \<in> set [''id'', ''symbol_code'', ''direction'', ''threshold'', ''email'']"
    by simp
  have absent: "map_of broken_rule ''email'' = None"
    by (simp add: broken_rule_def)
  have thr: "\<forall>v. map_of broken_rule ''threshold'' = Some v \<longrightarrow> \<not> isl (py_float demo_world v)"
    by (simp add: broken_rule_def)
  have only: "\<And>k'. k' \<in> set [''id'', ''symbol_code'', ''direction'', ''threshold'', ''email''] \<Longrightarrow>
                 map_of broken_rule k' = None \<Longrightarrow> k' = ''email''"
    by (auto simp: broken_rule_def)
  from missing_key_aborts_pass[OF key absent thr, of Map.empty "[demo_rule]" demo_state "[]"]
  show ?thesis
    using only absent by (auto simp: broken_rule_def)
qed

section \<open>Rules the pass leaves alone\<close>

lemma send_events_untouched: "filter (touches i) (send_events w m) = []"
  by (simp add: send_alert_email_def send_events_def blank_def emit_def Let_def
      split: option.splits)

lemma set_fields_keeps:
  assumes "k \<notin> fst ` set fs"
  shows "map_of (set_fields fs x) k = map_of x k"
  using assms
  by (simp add: map_of_set_fields map_add_def map_of_eq_None_iff[THEN iffD2] split: option.splits)

lemma rows_of_update:
  assumes "''id'' \<notin> fst ` set fs" and "j \<noteq> i"
  shows "rows_of i (map (\<lambda>r. if map_of r ''id'' = Some j then set_fields fs r else r) tbl) =
         rows_of i tbl"
  using assms
  by (induction tbl) (auto simp: rows_of_def set_fields_keeps)

text \<open>A turn of the loop for a rule with another id leaves the rows and events of \<open>i\<close>.\<close>

lemma eval_rule_other:
  assumes "map_of r ''id'' \<noteq> Some i"
  shows "rows_of i (rules_tbl (snd (eval_rule w lc r st))) = rows_of i (rules_tbl st) \<and>
         filter (touches i) (trace (snd (eval_rule w lc r st))) = filter (touches i) (trace st)"
  using assms
  by (auto simp: eval_rule_def getitem_def judge_rule_def Let_def send_alert_email_eq
      record_all_simps update_rule_trace update_rule_tbl rows_of_update send_events_untouched
      split: option.splits sum.splits jval.splits prod.splits)


lemma eval_rule_no_price:
  assumes "price_of lc (dict_get r ''symbol_code'') = None"
  shows "rules_tbl (snd (eval_rule w lc r st)) = rules_tbl st \<and>
         filter (touches i) (trace (snd (eval_rule w lc r st))) = filter (touches i) (trace st)"
  using assms
  by (auto simp: eval_rule_def getitem_def dict_get_def judge_rule_def record_all_simps
      split: option.splits sum.splits)

lemma eval_rule_other_direction:
  assumes "dict_get r ''direction'' \<noteq> JStr ''>=''"
  shows "rules_tbl (snd (eval_rule w lc r st)) = rules_tbl st \<and>
         filter (touches i) (trace (snd (eval_rule w lc r st))) = filter (touches i) (trace st)"
  using assms
  by (auto simp: eval_rule_def getitem_def dict_get_def judge_rule_def record_all_simps
      split: option.splits sum.splits)

lemma eval_rules_frame:
  assumes "\<And>r s. r \<in> set rs \<Longrightarrow> map_of r ''id'' = Some i \<Longrightarrow>
             rows_of i (rules_tbl (snd (eval_rule w lc r s))) = rows_of i (rules_tbl s) \<and>
             filter (touches i) (trace (snd (eval_rule w lc r s))) = filter (touches i) (trace s)"
  shows "rows_of i (rules_tbl (snd (eval_rules w lc rs st))) = rows_of i (rules_tbl st) \<and>
         filter (touches i) (trace (snd (eval_rules w lc rs st))) = filter (touches i) (trace st)"
  using assms
proof (induction rs arbitrary: st)
  case Nil
  then show ?case by simp
next
  case (Cons r rs)
  have step: "rows_of i (rules_tbl (snd (eval_rule w lc r st))) = rows_of i (rules_tbl st) \<and>
        filter (touches i) (trace (snd (eval_rule w lc r st))) = filter (touches i) (trace st)"
  proof (cases "map_of r ''id'' = Some i")
    case True
    then show ?thesis using Cons.prems[of r st] by simp
  next
    case False
    then show ?thesis by (rule eval_rule_other)
  qed
  obtain e st' where ev: "eval_rule w lc r st = (e, st')" by (cases "eval_rule w lc r st")
  show ?case
  proof (cases e)
    case None
    have "rows_of i (rules_tbl (snd (eval_rules w lc rs st'))) = rows_of i (rules_tbl st') \<and>
          filter (touches i) (trace (snd (eval_rules w lc rs st'))) = filter (touches i) (trace st')"
      using Cons.prems by (intro Cons.IH) simp
    then show ?thesis using step ev None by simp
  next
    case (Some a)
    then show ?thesis using step ev by simp
  qed
qed

lemma evaluate_alerts_frame:
  assumes "\<And>r s. r \<in> set (rules_tbl st) \<Longrightarrow> map_of r ''id'' = Some i \<Longrightarrow>
             rows_of i (rules_tbl (snd (eval_rule w lc r s))) = rows_of i (rules_tbl s) \<and>
             filter (touches i) (trace (snd (eval_rule w lc r s))) = filter (touches i) (trace s)"
  shows "rows_of i (rules_tbl (snd (evaluate_alerts w lc st))) = rows_of i (rules_tbl st) \<and>
         filter (touches i) (trace (snd (evaluate_alerts w lc st))) = filter (touches i) (trace st)"
proof (cases "load_ok w")
  case False
  then show ?thesis by (simp add: evaluate_alerts_unread)
next
  case True
  have "rows_of i (rules_tbl (snd (eval_rules w lc (filter enabled (rules_tbl st)) st))) =
          rows_of i (rules_tbl st) \<and>
        filter (touches i) (trace (snd (eval_rules w lc (filter enabled (rules_tbl st)) st))) =
          filter (touches i) (trace st)"
    using assms by (intro eval_rules_frame) simp
  then show ?thesis by (simp add: evaluate_alerts_read[OF True] record_all_simps)
qed

text \<open>
  Claim C4. Take a stored rule whose id no other row carries and whose \<open>symbol_code\<close> has
  no entry in \<open>latest_close\<close>. After the whole pass the rows with its id are what they
  were (so \<open>last_result\<close> and \<open>last_triggered_at\<close> are unchanged), and the pass has
  added neither a notification nor an update call for this id. When the rule has the
  typed shape, its turn of the loop only prints the line of the skipped rule.
\<close>

theorem missing_price_no_mutation:
  assumes stored: "r \<in> set (rules_tbl st)"
    and rid: "map_of r ''id'' = Some rule_id"
    and unique: "\<forall>r' \<in> set (rules_tbl st). map_of r' ''id'' = Some rule_id \<longrightarrow> r' = r"
    and no_price: "price_of latest_close (dict_get r ''symbol_code'') = None"
  shows "rows_of rule_id (rules_tbl (snd (evaluate_alerts w latest_close st))) =
           rows_of rule_id (rules_tbl st) \<and>
         r \<in> set (rules_tbl (snd (evaluate_alerts w latest_close st))) \<and>
         filter (touches rule_id) (trace (snd (evaluate_alerts w latest_close st))) =
           filter (touches rule_id) (trace st) \<and>
         (well_formed_rule r \<longrightarrow>
            eval_rule w latest_close r st =
              (None, emit (SkipNoPrice rule_id (dict_get r ''symbol_code'')) st))"
proof -
  have frame: "rows_of rule_id (rules_tbl (snd (evaluate_alerts w latest_close st))) =
           rows_of rule_id (rules_tbl st) \<and>
         filter (touches rule_id) (trace (snd (evaluate_alerts w latest_close st))) =
           filter (touches rule_id) (trace st)"
  proof (rule evaluate_alerts_frame)
    fix r' s
    assume "r' \<in> set (rules_tbl st)" "map_of r' ''id'' = Some rule_id"
    then have "r' = r" using unique by blast
    then show "rows_of rule_id (rules_tbl (snd (eval_rule w latest_close r' s))) =
                 rows_of rule_id (rules_tbl s) \<and>
               filter (touches rule_id) (trace (snd (eval_rule w latest_close r' s))) =
                 filter (touches rule_id) (trace s)"
      using eval_rule_no_price[OF no_price, of w s rule_id] by simp
  qed
  have "r \<in> set (rows_of rule_id (rules_tbl st))"
    using stored rid by (simp add: rows_of_def)
  then have "r \<in> set (rows_of rule_id (rules_tbl (snd (evaluate_alerts w latest_close st))))"
    using frame by simp
  then have kept: "r \<in> set (rules_tbl (snd (evaluate_alerts w latest_close st)))"
    by (simp add: rows_of_def)
  have one: "well_formed_rule r \<Longrightarrow>
            eval_rule w latest_close r st =
              (None, emit (SkipNoPrice rule_id (dict_get r ''symbol_code'')) st)"
    using no_price rid
    by (simp add: eval_rule_well_formed judge_rule_def dict_get_def)
  show ?thesis using frame kept one by blast
qed


theorem missing_price_no_mutation_witness:
  "demo_rule \<in> set (rules_tbl demo_state) \<and>
   map_of demo_rule ''id'' = Some (JNum (Fin 1)) \<and>
   rows_of (JNum (Fin 1)) (rules_tbl demo_state) = [demo_rule] \<and>
   price_of Map.empty (dict_get demo_rule ''symbol_code'') = None \<and>
   well_formed_rule demo_rule \<and>
   rows_of (JNum (Fin 1)) (rules_tbl (snd (evaluate_alerts demo_world Map.empty demo_state))) =
     [demo_rule] \<and>
   filter (touches (JNum (Fin 1))) (trace (snd (evaluate_alerts demo_world Map.empty demo_state))) = [] \<and>
   eval_rule demo_world Map.empty demo_rule demo_state =
     (None, emit (SkipNoPrice (JNum (Fin 1)) (JStr ''VIX'')) demo_state)"
proof -
  have stored: "demo_rule \<in> set (rules_tbl demo_state)" by (simp add: demo_rule_facts)
  have rid: "map_of demo_rule ''id'' = Some (JNum (Fin 1))" by (simp add: demo_rule_def)
  have unique: "\<forall>r' \<in> set (rules_tbl demo_state). map_of r' ''id'' = Some (JNum (Fin 1)) \<longrightarrow> r' = demo_rule"
    by (simp add: demo_rule_facts)
  have no_price: "price_of Map.empty (dict_get demo_rule ''symbol_code'') = None"
    by (simp add: demo_defs)
  have rows: "rows_of (JNum (Fin 1)) (rules_tbl demo_state) = [demo_rule]"
    by (simp add: rows_of_def demo_rule_facts rid)
  have sym: "dict_get demo_rule ''symbol_code'' = JStr ''VIX''" by (simp add: demo_defs)
  from missing_price_no_mutation[OF stored rid unique no_price, of demo_world]
  show ?thesis
    using stored rid no_price rows by (simp add: demo_rule_facts sym)
qed

text \<open>
  Claim C6. Take a stored rule whose id no other row carries, with a price for its symbol
  and a direction other than \<open>>=\<close> (for one, \<open><=\<close>). Whatever the price and the
  threshold, the rows with its id are unchanged after the pass, and the pass has added
  neither a notification nor an update call for this id. When the rule has the typed
  shape, its turn of the loop only prints the line of the unsupported direction.
\<close>

theorem unsupported_direction_skipped:
  assumes stored: "r \<in> set (rules_tbl st)"
    and rid: "map_of r ''id'' = Some rule_id"
    and unique: "\<forall>r' \<in> set (rules_tbl st). map_of r' ''id'' = Some rule_id \<longrightarrow> r' = r"
    and price: "price_of latest_close (dict_get r ''symbol_code'') = Some price"
    and dir: "dict_get r ''direction'' \<noteq> JStr ''>=''"
  shows "rows_of rule_id (rules_tbl (snd (evaluate_alerts w latest_close st))) =
           rows_of rule_id (rules_tbl st) \<and>
         r \<in> set (rules_tbl (snd (evaluate_alerts w latest_close st))) \<and>
         filter (touches rule_id) (trace (snd (evaluate_alerts w latest_close st))) =
           filter (touches rule_id) (trace st) \<and>
         (well_formed_rule r \<longrightarrow>
            eval_rule w latest_close r st =
              (None, emit (SkipDirection rule_id (dict_get r ''direction'')) st))"
proof -
  have frame: "rows_of rule_id (rules_tbl (snd (evaluate_alerts w latest_close st))) =
           rows_of rule_id (rules_tbl st) \<and>
         filter (touches rule_id) (trace (snd (evaluate_alerts w latest_close st))) =
           filter (touches rule_id) (trace st)"
  proof (rule evaluate_alerts_frame)
    fix r' s
    assume "r' \<in> set (rules_tbl st)" "map_of r' ''id'' = Some rule_id"
    then have "r' = r" using unique by blast
    then show "rows_of rule_id (rules_tbl (snd (eval_rule w latest_close r' s))) =
                 rows_of rule_id (rules_tbl s) \<and>
               filter (touches rule_id) (trace (snd (eval_rule w latest_close r' s))) =
                 filter (touches rule_id) (trace s)"
      using eval_rule_other_direction[OF dir, of w latest_close s rule_id] by simp
  qed
  have "r \<in> set (rows_of rule_id (rules_tbl st))"
    using stored rid by (simp add: rows_of_def)
  then have "r \<in> set (rows_of rule_id (rules_tbl (snd (evaluate_alerts w latest_close st))))"
    using frame by simp
  then have kept: "r \<in> set (rules_tbl (snd (evaluate_alerts w latest_close st)))"
    by (simp add: rows_of_def)
  have one: "well_formed_rule r \<Longrightarrow>
            eval_rule w latest_close r st =
              (None, emit (SkipDirection rule_id (dict_get r ''direction'')) st)"
    using price dir rid
    by (simp add: eval_rule_well_formed judge_rule_def dict_get_def)
  show ?thesis using frame kept one by blast
qed

theorem unsupported_direction_skipped_witness:
  "le_rule \<in> set [le_rule] \<and>
   map_of le_rule ''id'' = Some (JNum (Fin 3)) \<and>
   rows_of (JNum (Fin 3)) [le_rule] = [le_rule] \<and>
   price_of [''VIX'' \<mapsto> Fin 15] (dict_get le_rule ''symbol_code'') = Some (Fin 15) \<and>
   dict_get le_rule ''direction'' = JStr ''<='' \<and>
   well_formed_rule le_rule \<and>
   rows_of (JNum (Fin 3))
     (rules_tbl (snd (evaluate_alerts demo_world [''VIX'' \<mapsto> Fin 15] (demo_state\<lparr>rules_tbl := [le_rule]\<rparr>)))) =
     [le_rule] \<and>
   filter (touches (JNum (Fin 3)))
     (trace (snd (evaluate_alerts demo_world [''VIX'' \<mapsto> Fin 15] (demo_state\<lparr>rules_tbl := [le_rule]\<rparr>)))) = [] \<and>
   eval_rule demo_world [''VIX'' \<mapsto> Fin 15] le_rule (demo_state\<lparr>rules_tbl := [le_rule]\<rparr>) =
     (None, emit (SkipDirection (JNum (Fin 3)) (JStr ''<='')) (demo_state\<lparr>rules_tbl := [le_rule]\<rparr>))"
proof -
  let ?st = "demo_state\<lparr>rules_tbl := [le_rule]\<rparr>"
  have tbl: "rules_tbl ?st = [le_rule]" "trace ?st = []" by (simp_all add: demo_state_def)
  have stored: "le_rule \<in> set (rules_tbl ?st)" by (simp add: tbl)
  have rid: "map_of le_rule ''id'' = Some (JNum (Fin 3))" by (simp add: le_rule_def)
  have unique: "\<forall>r' \<in> set (rules_tbl ?st). map_of r' ''id'' = Some (JNum (Fin 3)) \<longrightarrow> r' = le_rule"
    by (simp add: tbl)
  have price: "price_of [''VIX'' \<mapsto> Fin 15] (dict_get le_rule ''symbol_code'') = Some (Fin 15)"
    by (simp add: le_rule_def dict_get_def price_of_def)
  have dir: "dict_get le_rule ''direction'' = JStr ''<=''"
    by (simp add: le_rule_def dict_get_def)
  have dir': "dict_get le_rule ''direction'' \<noteq> JStr ''>=''"
    by (simp add: dir)
  have wf: "well_formed_rule le_rule"
    by (simp add: le_rule_def well_formed_rule_def dict_get_def is_text_def)
  have rows: "rows_of (JNum (Fin 3)) [le_rule] = [le_rule]"
    by (simp add: rows_of_def rid)
  from unsupported_direction_skipped[OF stored rid unique price dir', of demo_world]
  show ?thesis
    using rid price dir wf rows by (simp add: tbl)
qed

section \<open>A sequence of passes\<close>

lemma sends_for_touches: "sends_for i tr = sends_for i (filter (touches i) tr)"
  unfolding sends_for_def
  by (induction tr rule: notifications.induct) simp_all

lemma sends_for_append: "sends_for i (a @ b) = sends_for i a + sends_for i b"
  by (simp add: sends_for_def notifications_append)

lemma eval_rule_returns:
  assumes wf: "well_formed_rule r" and pv: "send_returns w"
  shows "fst (eval_rule w lc r st) = None"
proof (cases "price_of lc (dict_get r ''symbol_code'')")
  case None
  then show ?thesis
    by (simp add: eval_rule_well_formed[OF wf] judge_rule_def)
next
  case (Some price)
  show ?thesis
  proof (cases "dict_get r ''direction'' = JStr ''>=''")
    case True
    obtain b where b: "send_result w (alert_for r price) = Inr b"
      using send_returns_reports[OF pv] by blast
    show ?thesis
      by (simp add: eval_rule_judged[OF wf Some True] Let_def b)
  next
    case False
    then show ?thesis
      by (simp add: eval_rule_well_formed[OF wf] judge_rule_def Some)
  qed
qed

lemma same_rule_refl: "same_rule a a"
  by (simp add: same_rule_def)

lemma same_rule_trans:
  assumes ab: "same_rule a b" and bc: "same_rule b c"
  shows "same_rule a c"
proof -
  have keys: "\<And>k. k \<noteq> ''last_result'' \<and> k \<noteq> ''last_triggered_at'' \<Longrightarrow> map_of c k = map_of a k"
    using ab bc unfolding same_rule_def by metis
  have last: "map_of c ''last_result'' = map_of a ''last_result'' \<or>
              (\<exists>v. map_of c ''last_result'' = Some (JBool v))"
    using ab bc unfolding same_rule_def by metis
  show ?thesis
    unfolding same_rule_def using keys last by blast
qed

lemma same_rule_set_fields:
  assumes "fs = [(''last_result'', JBool v)] \<or>
           fs = [(''last_result'', JBool v), (''last_triggered_at'', t)]"
  shows "same_rule a (set_fields fs a)"
  using assms by (auto simp: same_rule_def map_of_set_fields map_add_def)

lemma same_rule_keys:
  assumes "same_rule a b"
  shows "map_of b ''id'' = map_of a ''id''"
    "map_of b ''symbol_code'' = map_of a ''symbol_code''"
    "map_of b ''direction'' = map_of a ''direction''"
    "map_of b ''threshold'' = map_of a ''threshold''"
    "map_of b ''email'' = map_of a ''email''"
    "map_of b ''severity'' = map_of a ''severity''"
    "map_of b ''enabled'' = map_of a ''enabled''"
  using assms by (simp_all add: same_rule_def)

lemma same_rule_last_result:
  assumes "same_rule a b"
  shows "dict_get b ''last_result'' = dict_get a ''last_result'' \<or>
         (\<exists>v. dict_get b ''last_result'' = JBool v)"
proof -
  have "map_of b ''last_result'' = map_of a ''last_result'' \<or>
        (\<exists>v. map_of b ''last_result'' = Some (JBool v))"
    using assms unfolding same_rule_def by blast
  then show ?thesis
    by (auto simp: dict_get_def)
qed

lemma same_rule_well_formed:
  assumes ab: "same_rule a b" and wf: "well_formed_rule a"
  shows "well_formed_rule b"
proof -
  have lr: "case dict_get b ''last_result'' of JNull \<Rightarrow> True | JBool _ \<Rightarrow> True | _ \<Rightarrow> False"
    using same_rule_last_result[OF ab] wf
    by (auto simp: well_formed_rule_def)
  have sev: "dict_get b ''severity'' = dict_get a ''severity''"
    by (simp add: dict_get_def same_rule_keys[OF ab])
  show ?thesis
    using wf lr
    by (simp add: well_formed_rule_def same_rule_keys[OF ab] sev)
qed

lemma same_rule_reads:
  assumes "same_rule a b"
  shows "enabled b = enabled a" "map_of b ''id'' = map_of a ''id''"
    "dict_get b ''symbol_code'' = dict_get a ''symbol_code''"
    "dict_get b ''direction'' = dict_get a ''direction''"
    "threshold_of b = threshold_of a"
  by (simp_all add: same_rule_keys[OF assms] enabled_def dict_get_def threshold_of_def)

lemma same_rule_observed:
  assumes "same_rule a b"
  shows "observed lc b = observed lc a"
  by (simp add: observed_def same_rule_reads(3,4,5)[OF assms] split: option.splits)

lemma same_rule_tbl_refl: "list_all2 same_rule tbl tbl"
  by (simp add: list_all2_refl same_rule_refl)

lemma same_rule_tbl_update:
  assumes "fs = [(''last_result'', JBool v)] \<or>
           fs = [(''last_result'', JBool v), (''last_triggered_at'', t)]"
  shows "list_all2 same_rule tbl
           (map (\<lambda>r. if map_of r ''id'' = Some j then set_fields fs r else r) tbl)"
  using same_rule_set_fields[OF assms]
  by (simp add: list_all2_map2 list_all2_refl same_rule_refl list.rel_refl_strong)

lemma update_rule_same:
  assumes "fs = [(''last_result'', JBool v)] \<or>
           fs = [(''last_result'', JBool v), (''last_triggered_at'', t)]"
  shows "list_all2 same_rule (rules_tbl st) (rules_tbl (update_rule w j fs st))"
  using same_rule_tbl_update[OF assms] by (simp add: update_rule_tbl same_rule_tbl_refl)


lemma eval_rule_same:
  "list_all2 same_rule (rules_tbl st) (rules_tbl (snd (eval_rule w lc r st)))"
proof -
  have upd: "\<And>j v s. list_all2 same_rule (rules_tbl s)
               (rules_tbl (update_rule w j [(''last_result'', JBool v)] s))"
    by (rule update_rule_same) simp
  have upd2: "\<And>j v t s. list_all2 same_rule (rules_tbl s)
               (rules_tbl (update_rule w j [(''last_result'', JBool v), (''last_triggered_at'', t)] s))"
    by (rule update_rule_same) simp
  have judge: "\<And>i sy d t e. list_all2 same_rule (rules_tbl st)
                 (rules_tbl (snd (judge_rule w lc r i sy d t e st)))"
    using upd[of "record_all evs st" for evs] upd2[of "record_all evs st" for evs]
    by (simp add: judge_rule_def Let_def send_alert_email_eq record_all_simps same_rule_tbl_refl
        split: option.splits sum.splits jval.splits prod.splits)
  show ?thesis
    using judge
    by (simp add: eval_rule_def same_rule_tbl_refl split: sum.splits)
qed


lemma eval_rules_same:
  "list_all2 same_rule (rules_tbl st) (rules_tbl (snd (eval_rules w lc rs st)))"
proof (induction rs arbitrary: st)
  case Nil
  then show ?case by (simp add: same_rule_tbl_refl)
next
  case (Cons r rs)
  obtain e st' where ev: "eval_rule w lc r st = (e, st')" by (cases "eval_rule w lc r st")
  have one: "list_all2 same_rule (rules_tbl st) (rules_tbl st')"
    using eval_rule_same[of st w lc r] ev by simp
  show ?case
  proof (cases e)
    case None
    have "list_all2 same_rule (rules_tbl st') (rules_tbl (snd (eval_rules w lc rs st')))"
      by (rule Cons.IH)
    with one have "list_all2 same_rule (rules_tbl st) (rules_tbl (snd (eval_rules w lc rs st')))"
      by (rule list_all2_trans[rotated]) (rule same_rule_trans)
    then show ?thesis using ev None by simp
  next
    case (Some a)
    then show ?thesis using one ev by simp
  qed
qed

lemma evaluate_alerts_same:
  "list_all2 same_rule (rules_tbl st) (rules_tbl (snd (evaluate_alerts w lc st)))"
  by (cases "load_ok w")
    (simp_all add: evaluate_alerts_read evaluate_alerts_unread eval_rules_same record_all_simps
      same_rule_tbl_refl)

lemma shape_kept:
  assumes rel: "list_all2 same_rule tbl tbl'"
    and shape: "\<forall>x \<in> set tbl. enabled x \<longrightarrow> well_formed_rule x"
  shows "\<forall>x \<in> set tbl'. enabled x \<longrightarrow> well_formed_rule x"
proof (intro ballI impI)
  fix x' assume x': "x' \<in> set tbl'" and en: "enabled x'"
  obtain k where k: "k < length tbl'" "x' = tbl' ! k"
    using x' by (auto simp: in_set_conv_nth)
  have len: "length tbl = length tbl'" using rel by (rule list_all2_lengthD)
  define x where "x = tbl ! k"
  have x: "x \<in> set tbl" "same_rule x x'"
    using k len list_all2_nthD2[OF rel k(1)] by (simp_all add: x_def)
  have "enabled x" using same_rule_reads(1)[OF x(2)] en by simp
  then have "well_formed_rule x" using shape x(1) by blast
  then show "well_formed_rule x'" using same_rule_well_formed[OF x(2)] by simp
qed

lemma rows_of_update_own:
  assumes "''id'' \<notin> fst ` set fs"
  shows "rows_of i (map (\<lambda>r. if map_of r ''id'' = Some i then set_fields fs r else r) tbl) =
         map (set_fields fs) (rows_of i tbl)"
  using assms
  by (induction tbl) (auto simp: rows_of_def set_fields_keeps)

lemma eval_rules_append:
  assumes "fst (eval_rules w lc xs st) = None"
  shows "eval_rules w lc (xs @ ys) st = eval_rules w lc ys (snd (eval_rules w lc xs st))"
  using assms
proof (induction xs arbitrary: st)
  case Nil
  then show ?case by simp
next
  case (Cons x xs)
  obtain e st' where ev: "eval_rule w lc x st = (e, st')" by (cases "eval_rule w lc x st")
  show ?case
  proof (cases e)
    case None
    then show ?thesis using Cons ev by simp
  next
    case (Some a)
    then show ?thesis using Cons.prems ev by simp
  qed
qed

lemma eval_rules_others:
  assumes "\<forall>x \<in> set rs. well_formed_rule x \<and> map_of x ''id'' \<noteq> Some i"
    and pv: "send_returns w"
  shows "fst (eval_rules w lc rs st) = None \<and>
         rows_of i (rules_tbl (snd (eval_rules w lc rs st))) = rows_of i (rules_tbl st) \<and>
         sends_for i (trace (snd (eval_rules w lc rs st))) = sends_for i (trace st)"
  using assms(1)
proof (induction rs arbitrary: st)
  case Nil
  then show ?case by simp
next
  case (Cons r rs)
  obtain e st' where ev: "eval_rule w lc r st = (e, st')" by (cases "eval_rule w lc r st")
  have wf: "well_formed_rule r" and other: "map_of r ''id'' \<noteq> Some i"
    using Cons.prems by simp_all
  have e: "e = None" using eval_rule_returns[OF wf pv, of lc st] ev by simp
  have frame: "rows_of i (rules_tbl st') = rows_of i (rules_tbl st)"
    "filter (touches i) (trace st') = filter (touches i) (trace st)"
    using eval_rule_other[OF other, of w lc st] ev by simp_all
  have sends: "sends_for i (trace st') = sends_for i (trace st)"
    using sends_for_touches[of i "trace st'"] sends_for_touches[of i "trace st"] frame(2) by simp
  have "fst (eval_rules w lc rs st') = None \<and>
         rows_of i (rules_tbl (snd (eval_rules w lc rs st'))) = rows_of i (rules_tbl st') \<and>
         sends_for i (trace (snd (eval_rules w lc rs st'))) = sends_for i (trace st')"
    using Cons.prems by (intro Cons.IH) simp
  then show ?case using ev e frame(1) sends by simp
qed


lemma prev_result_written:
  assumes "fs = [(''last_result'', JBool v)] \<or>
           fs = [(''last_result'', JBool v), (''last_triggered_at'', t)]"
  shows "prev_result_of (set_fields fs r) = v"
  using assms
  by (auto simp: prev_result_of_def dict_get_def map_of_set_fields map_add_def Let_def)

text \<open>The turn of the loop for the rule itself, when its update goes through.\<close>

lemma eval_rule_own:
  assumes wf: "well_formed_rule r" and pv: "send_returns w" and ok: "update_ok w i"
    and rid: "map_of r ''id'' = Some i"
    and rows: "rows_of i (rules_tbl st) = [r]"
  shows "\<exists>r'. rows_of i (rules_tbl (snd (eval_rule w lc r st))) = [r'] \<and> same_rule r r' \<and>
           prev_result_of r' = (case observed lc r of None \<Rightarrow> prev_result_of r | Some now \<Rightarrow> now) \<and>
           sends_for i (trace (snd (eval_rule w lc r st))) =
             sends_for i (trace st) +
             (case observed lc r of None \<Rightarrow> 0
              | Some now \<Rightarrow> if now \<and> \<not> prev_result_of r then 1 else 0)"
proof -
  have id: "dict_get r ''id'' = i" using rid by (simp add: dict_get_def)
  show ?thesis
  proof (cases "price_of lc (dict_get r ''symbol_code'')")
    case None
    have "eval_rule w lc r st = (None, emit (SkipNoPrice i (dict_get r ''symbol_code'')) st)"
      using None by (simp add: eval_rule_well_formed[OF wf] judge_rule_def id)
    then show ?thesis
      using rows None
      by (intro exI[of _ r]) (simp add: record_all_simps same_rule_refl observed_def
          notifications_append sends_for_def)
  next
    case (Some price)
    show ?thesis
    proof (cases "dict_get r ''direction'' = JStr ''>=''")
      case False
      have "eval_rule w lc r st = (None, emit (SkipDirection i (dict_get r ''direction'')) st)"
        using Some False by (simp add: eval_rule_well_formed[OF wf] judge_rule_def id)
      then show ?thesis
        using rows Some False
        by (intro exI[of _ r]) (simp add: record_all_simps same_rule_refl observed_def
            notifications_append sends_for_def)
    next
      case True
      obtain b where b: "send_result w (alert_for r price) = Inr b"
        using send_returns_reports[OF pv] by blast
      define now where "now = float_ge price (threshold_of r)"
      define fs where "fs = (''last_result'', JBool now) #
          (if now \<and> \<not> prev_result_of r \<and> b then [(''last_triggered_at'', JStr (utc_now w))] else [])"
      have fs: "fs = [(''last_result'', JBool now)] \<or>
                fs = [(''last_result'', JBool now), (''last_triggered_at'', JStr (utc_now w))]"
        by (simp add: fs_def)
      have keys: "''id'' \<notin> fst ` set fs" using fs by auto
      have obs: "observed lc r = Some now"
        by (simp add: observed_def Some True now_def)
      have tbl: "rules_tbl (snd (eval_rule w lc r st)) =
                   map (\<lambda>x. if map_of x ''id'' = Some i then set_fields fs x else x) (rules_tbl st)"
        using ok
        by (simp add: eval_rule_judged[OF wf Some True] Let_def b id update_rule_tbl
            record_all_simps fs_def now_def)
      have sends: "sends_for i (trace (snd (eval_rule w lc r st))) =
                     sends_for i (trace st) + (if now \<and> \<not> prev_result_of r then 1 else 0)"
        by (simp add: eval_rule_judged[OF wf Some True] Let_def b id update_rule_trace
            record_all_simps now_def sends_for_def notifications_append send_events_quiet)
      have "rows_of i (rules_tbl (snd (eval_rule w lc r st))) = [set_fields fs r]"
        by (simp add: tbl rows_of_update_own[OF keys] rows)
      then show ?thesis
        using same_rule_set_fields[OF fs, of r] prev_result_written[OF fs, of r] sends obs
        by (intro exI[of _ "set_fields fs r"]) simp
    qed
  qed
qed


text \<open>One whole pass, seen from one rule whose id is a key and whose update goes through.\<close>

lemma pass_step:
  assumes shape: "\<forall>x \<in> set (rules_tbl st). enabled x \<longrightarrow> well_formed_rule x"
    and rows: "rows_of i (rules_tbl st) = [r]"
    and en: "enabled r"
    and ld: "load_ok w"
    and pv: "send_returns w" and ok: "update_ok w i"
  shows "\<exists>r'. rows_of i (rules_tbl (snd (evaluate_alerts w lc st))) = [r'] \<and> same_rule r r' \<and>
           prev_result_of r' = (case observed lc r of None \<Rightarrow> prev_result_of r | Some now \<Rightarrow> now) \<and>
           sends_for i (trace (snd (evaluate_alerts w lc st))) =
             sends_for i (trace st) +
             (case observed lc r of None \<Rightarrow> 0
              | Some now \<Rightarrow> if now \<and> \<not> prev_result_of r then 1 else 0)"
proof -
  let ?L = "filter enabled (rules_tbl st)"
  let ?P = "\<lambda>x. map_of x ''id'' = Some i"
  have r_in: "r \<in> set (rows_of i (rules_tbl st))" using rows by simp
  then have rid: "map_of r ''id'' = Some i" and stored: "r \<in> set (rules_tbl st)"
    by (simp_all add: rows_of_def)
  have wf: "well_formed_rule r" using shape stored en by blast
  have "filter ?P ?L = filter enabled (rows_of i (rules_tbl st))"
    by (simp add: rows_of_def conj_commute)
  then have "filter ?P ?L = [r]" using rows en by simp
  then obtain pre post where split: "?L = pre @ r # post"
    and pre: "\<forall>u \<in> set pre. \<not> ?P u" and post: "filter ?P post = []"
    by (auto simp: filter_eq_Cons_iff)
  have all_wf: "\<forall>x \<in> set ?L. well_formed_rule x"
    using shape by simp
  have pre': "\<forall>x \<in> set pre. well_formed_rule x \<and> map_of x ''id'' \<noteq> Some i"
    using all_wf pre by (simp add: split)
  have post': "\<forall>x \<in> set post. well_formed_rule x \<and> map_of x ''id'' \<noteq> Some i"
    using all_wf post by (auto simp: split filter_empty_conv)
  define st1 where "st1 = snd (eval_rules w lc pre st)"
  define st2 where "st2 = snd (eval_rule w lc r st1)"
  define st3 where "st3 = snd (eval_rules w lc post st2)"
  note a = eval_rules_others[OF pre' pv, of lc st, folded st1_def]
  have rows1: "rows_of i (rules_tbl st1) = [r]" using a rows by simp
  have ret: "fst (eval_rule w lc r st1) = None" by (rule eval_rule_returns[OF wf pv])
  obtain r' where r': "rows_of i (rules_tbl st2) = [r']" "same_rule r r'"
      "prev_result_of r' = (case observed lc r of None \<Rightarrow> prev_result_of r | Some now \<Rightarrow> now)"
      "sends_for i (trace st2) = sends_for i (trace st1) +
             (case observed lc r of None \<Rightarrow> 0
              | Some now \<Rightarrow> if now \<and> \<not> prev_result_of r then 1 else 0)"
    using eval_rule_own[OF wf pv ok rid rows1, of lc] unfolding st2_def by blast
  note c = eval_rules_others[OF post' pv, of lc st2, folded st3_def]
  have "eval_rules w lc ?L st = eval_rules w lc (r # post) st1"
    using a eval_rules_append[of w lc pre st "r # post"] by (simp add: split st1_def)
  also have "\<dots> = eval_rules w lc post st2"
    using ret by (cases "eval_rule w lc r st1") (simp add: st2_def)
  finally have "snd (eval_rules w lc ?L st) = st3" by (simp add: st3_def)
  moreover have "?L \<noteq> []" by (simp add: split)
  ultimately have final: "snd (evaluate_alerts w lc st) = st3"
    by (simp add: evaluate_alerts_read[OF ld])
  show ?thesis
    using r' a c by (intro exI[of _ r']) (simp add: final)
qed

text \<open>The calls of \<open>send_alert_email\<close> one turn of the loop adds for the rule's own id.\<close>

lemma eval_rule_sends:
  assumes wf: "well_formed_rule r" and rid: "map_of r ''id'' = Some i"
  shows "sends_for i (trace (snd (eval_rule w lc r st))) =
           sends_for i (trace st) +
           (case observed lc r of None \<Rightarrow> 0
            | Some now \<Rightarrow> if now \<and> \<not> prev_result_of r then 1 else 0)"
proof -
  have id: "dict_get r ''id'' = i" using rid by (simp add: dict_get_def)
  show ?thesis
  proof (cases "price_of lc (dict_get r ''symbol_code'')")
    case None
    then show ?thesis
      by (simp add: eval_rule_well_formed[OF wf] judge_rule_def record_all_simps observed_def
          sends_for_def notifications_append)
  next
    case (Some price)
    show ?thesis
    proof (cases "dict_get r ''direction'' = JStr ''>=''")
      case False
      then show ?thesis
        using Some
        by (simp add: eval_rule_well_formed[OF wf] judge_rule_def record_all_simps observed_def
            sends_for_def notifications_append)
    next
      case True
      show ?thesis
        by (simp add: eval_rule_judged[OF wf Some True] Let_def id update_rule_trace
            record_all_simps observed_def Some True sends_for_def notifications_append
            send_events_quiet split: sum.splits)
    qed
  qed
qed

text \<open>
  One whole pass that reads the rules, seen from one rule whose id is a key: the rules
  before it return, its own turn adds its call, the rules after it add none for its id.
\<close>

lemma pass_sends:
  assumes shape: "\<forall>x \<in> set (rules_tbl st). enabled x \<longrightarrow> well_formed_rule x"
    and rows: "rows_of i (rules_tbl st) = [r]"
    and en: "enabled r"
    and ld: "load_ok w"
    and pv: "send_returns w"
  shows "sends_for i (trace (snd (evaluate_alerts w lc st))) =
           sends_for i (trace st) +
           (case observed lc r of None \<Rightarrow> 0
            | Some now \<Rightarrow> if now \<and> \<not> prev_result_of r then 1 else 0)"
proof -
  let ?L = "filter enabled (rules_tbl st)"
  let ?P = "\<lambda>x. map_of x ''id'' = Some i"
  have r_in: "r \<in> set (rows_of i (rules_tbl st))" using rows by simp
  then have rid: "map_of r ''id'' = Some i" and stored: "r \<in> set (rules_tbl st)"
    by (simp_all add: rows_of_def)
  have wf: "well_formed_rule r" using shape stored en by blast
  have "filter ?P ?L = filter enabled (rows_of i (rules_tbl st))"
    by (simp add: rows_of_def conj_commute)
  then have "filter ?P ?L = [r]" using rows en by simp
  then obtain pre post where split: "?L = pre @ r # post"
    and pre: "\<forall>u \<in> set pre. \<not> ?P u" and post: "filter ?P post = []"
    by (auto simp: filter_eq_Cons_iff)
  have all_wf: "\<forall>x \<in> set ?L. well_formed_rule x"
    using shape by simp
  have pre': "\<forall>x \<in> set pre. well_formed_rule x \<and> map_of x ''id'' \<noteq> Some i"
    using all_wf pre by (simp add: split)
  have post': "\<forall>x \<in> set post. well_formed_rule x \<and> map_of x ''id'' \<noteq> Some i"
    using all_wf post by (auto simp: split filter_empty_conv)
  define st1 where "st1 = snd (eval_rules w lc pre st)"
  define st2 where "st2 = snd (eval_rule w lc r st1)"
  define st3 where "st3 = snd (eval_rules w lc post st2)"
  note a = eval_rules_others[OF pre' pv, of lc st, folded st1_def]
  have ret: "fst (eval_rule w lc r st1) = None" by (rule eval_rule_returns[OF wf pv])
  note b = eval_rule_sends[OF wf rid, of w lc st1, folded st2_def]
  note c = eval_rules_others[OF post' pv, of lc st2, folded st3_def]
  have "eval_rules w lc ?L st = eval_rules w lc (r # post) st1"
    using a eval_rules_append[of w lc pre st "r # post"] by (simp add: split st1_def)
  also have "\<dots> = eval_rules w lc post st2"
    using ret by (cases "eval_rule w lc r st1") (simp add: st2_def)
  finally have "snd (eval_rules w lc ?L st) = st3" by (simp add: st3_def)
  moreover have "?L \<noteq> []" by (simp add: split)
  ultimately have final: "snd (evaluate_alerts w lc st) = st3"
    by (simp add: evaluate_alerts_read[OF ld])
  show ?thesis
    using a b c by (simp add: final)
qed

section \<open>Edge-triggered notification\<close>

text \<open>
  Claim C1. Take a rule of the typed shape whose symbol has a price in \<open>latest_close\<close>
  and whose direction is \<open>>=\<close>, with \<open>threshold\<close> the number stored as its threshold. The
  loop prints the line with \<open>prev\<close> true exactly when the stored \<open>last_result\<close> is \<open>True\<close>
  and with \<open>now = (price >= threshold)\<close>: for two finite floats that is
  \<open>threshold \<le> price\<close>, so a price equal to the threshold counts as met; it is false when
  either is NaN, and the infinities compare as the largest and the least float. It calls
  \<open>send_alert_email\<close> for the rule exactly when \<open>now\<close> is true and the stored
  \<open>last_result\<close> is not \<open>True\<close>: no call when the stored result is \<open>True\<close>, whether the
  condition still holds or has fallen, and none while the condition is false. So does the
  whole pass: when the rule is enabled and the only stored row with its id, the enabled
  rows have the typed shape, the rules are read and the notification call returns,
  \<open>evaluate_alerts\<close> adds one call of \<open>send_alert_email\<close> for this id when \<open>now\<close> is
  true and the stored \<open>last_result\<close> is not \<open>True\<close>, and none otherwise.
\<close>

theorem rising_edge_notification:
  assumes wf: "well_formed_rule r"
    and price: "price_of latest_close (dict_get r ''symbol_code'') = Some price"
    and dir: "dict_get r ''direction'' = JStr ''>=''"
  shows "let st' = snd (eval_rule w latest_close r st);
             threshold = threshold_of r;
             now_result = float_ge price threshold;
             prev_result = (dict_get r ''last_result'' = JBool True)
         in dict_get r ''threshold'' = JNum threshold \<and>
            (\<forall>p t. price = Fin p \<and> threshold = Fin t \<longrightarrow> now_result = (t \<le> p)) \<and>
            (price = NaN \<or> threshold = NaN \<longrightarrow> \<not> now_result) \<and>
            (price \<noteq> NaN \<and> threshold \<noteq> NaN \<and> (price = PInf \<or> threshold = NInf) \<longrightarrow> now_result) \<and>
            (price \<noteq> PInf \<and> threshold = PInf \<longrightarrow> \<not> now_result) \<and>
            (price = NInf \<and> threshold \<noteq> NInf \<longrightarrow> \<not> now_result) \<and>
            (price = threshold \<and> price \<noteq> NaN \<longrightarrow> now_result) \<and>
            RuleLine (dict_get r ''id'') prev_result now_result \<in> set (trace st') \<and>
            notifications (trace st') =
              notifications (trace st) @
                (if now_result \<and> \<not> prev_result
                 then [(dict_get r ''id'', alert_for r price)] else []) \<and>
            (prev_result \<or> \<not> now_result \<longrightarrow> notifications (trace st') = notifications (trace st)) \<and>
            (rows_of (dict_get r ''id'') (rules_tbl st) = [r] \<and> enabled r \<and>
             (\<forall>x \<in> set (rules_tbl st). enabled x \<longrightarrow> well_formed_rule x) \<and>
             load_ok w \<and> send_returns w \<longrightarrow>
             sends_for (dict_get r ''id'') (trace (snd (evaluate_alerts w latest_close st))) =
               sends_for (dict_get r ''id'') (trace st) +
                 (if now_result \<and> \<not> prev_result then 1 else 0))"
proof -
  define st' where "st' = snd (eval_rule w latest_close r st)"
  define threshold where "threshold = threshold_of r"
  define now_result where "now_result = float_ge price threshold"
  define prev_result where "prev_result = (dict_get r ''last_result'' = JBool True)"
  have prev: "prev_result_of r = prev_result"
    by (simp add: prev_result_def prev_result_stored[OF wf])
  have line: "RuleLine (dict_get r ''id'') prev_result now_result \<in> set (trace st')"
    unfolding st'_def
    by (auto simp: eval_rule_judged[OF wf price dir] Let_def record_all_simps update_rule_trace
        prev now_result_def threshold_def split: sum.splits)
  have sends: "notifications (trace st') =
              notifications (trace st) @
                (if now_result \<and> \<not> prev_result
                 then [(dict_get r ''id'', alert_for r price)] else [])"
    unfolding st'_def
    by (auto simp: eval_rule_judged[OF wf price dir] Let_def record_all_simps update_rule_trace
        notifications_append send_events_quiet prev now_result_def threshold_def
        split: sum.splits)
  have none: "prev_result \<or> \<not> now_result \<longrightarrow> notifications (trace st') = notifications (trace st)"
    using sends by auto
  have cmp: "(\<forall>p t. price = Fin p \<and> threshold = Fin t \<longrightarrow> now_result = (t \<le> p))"
    "price = NaN \<or> threshold = NaN \<longrightarrow> \<not> now_result"
    "price \<noteq> NaN \<and> threshold \<noteq> NaN \<and> (price = PInf \<or> threshold = NInf) \<longrightarrow> now_result"
    "price \<noteq> PInf \<and> threshold = PInf \<longrightarrow> \<not> now_result"
    "price = NInf \<and> threshold \<noteq> NInf \<longrightarrow> \<not> now_result"
    "price = threshold \<and> price \<noteq> NaN \<longrightarrow> now_result"
    unfolding now_result_def
    using float_ge_refl[of price]
    by (cases price; cases threshold; simp)+
  have thr: "dict_get r ''threshold'' = JNum threshold"
    by (simp add: threshold_def threshold_stored[OF wf])
  have obs: "observed latest_close r = Some now_result"
    by (simp add: observed_def price dir now_result_def threshold_def)
  have pass: "rows_of (dict_get r ''id'') (rules_tbl st) = [r] \<and> enabled r \<and>
             (\<forall>x \<in> set (rules_tbl st). enabled x \<longrightarrow> well_formed_rule x) \<and>
             load_ok w \<and> send_returns w \<longrightarrow>
             sends_for (dict_get r ''id'') (trace (snd (evaluate_alerts w latest_close st))) =
               sends_for (dict_get r ''id'') (trace st) +
                 (if now_result \<and> \<not> prev_result then 1 else 0)"
  proof
    assume h: "rows_of (dict_get r ''id'') (rules_tbl st) = [r] \<and> enabled r \<and>
             (\<forall>x \<in> set (rules_tbl st). enabled x \<longrightarrow> well_formed_rule x) \<and>
             load_ok w \<and> send_returns w"
    then have rows: "rows_of (dict_get r ''id'') (rules_tbl st) = [r]" and en: "enabled r"
      and shape: "\<forall>x \<in> set (rules_tbl st). enabled x \<longrightarrow> well_formed_rule x"
      and ld: "load_ok w" and pv: "send_returns w"
      by simp_all
    show "sends_for (dict_get r ''id'') (trace (snd (evaluate_alerts w latest_close st))) =
               sends_for (dict_get r ''id'') (trace st) +
                 (if now_result \<and> \<not> prev_result then 1 else 0)"
      using pass_sends[OF shape rows en ld pv, of latest_close] by (simp add: obs prev)
  qed
  show ?thesis
    using thr cmp line sends none pass
    unfolding Let_def st'_def[symmetric] threshold_def[symmetric] now_result_def[symmetric]
      prev_result_def[symmetric]
    by blast
qed

theorem rising_edge_notification_witness:
  "well_formed_rule demo_rule \<and>
   price_of [''VIX'' \<mapsto> Fin 25] (dict_get demo_rule ''symbol_code'') = Some (Fin 25) \<and>
   dict_get demo_rule ''direction'' = JStr ''>='' \<and>
   dict_get demo_rule ''threshold'' = JNum (Fin 20) \<and>
   dict_get demo_rule ''last_result'' = JNull \<and>
   notifications (trace (snd (eval_rule demo_world [''VIX'' \<mapsto> Fin 25] demo_rule demo_state))) =
     [(JNum (Fin 1), alert_for demo_rule (Fin 25))] \<and>
   rows_of (JNum (Fin 1)) (rules_tbl demo_state) = [demo_rule] \<and> enabled demo_rule \<and>
   load_ok demo_world \<and> send_returns demo_world \<and>
   sends_for (JNum (Fin 1)) (trace demo_state) = 0 \<and>
   sends_for (JNum (Fin 1))
     (trace (snd (evaluate_alerts demo_world [''VIX'' \<mapsto> Fin 25] demo_state))) = 1"
proof -
  note h = demo_rule_facts(1) demo_rule_facts(2)[of "Fin 25"] demo_rule_facts(3)
  have thr: "dict_get demo_rule ''threshold'' = JNum (Fin 20)"
    by (simp add: demo_rule_def dict_get_def)
  have rows: "rows_of (JNum (Fin 1)) (rules_tbl demo_state) = [demo_rule]"
    by (simp add: rows_of_def demo_state_def demo_rule_def)
  have en: "enabled demo_rule" by (simp add: enabled_def demo_rule_def)
  have none: "sends_for (JNum (Fin 1)) (trace demo_state) = 0"
    by (simp add: sends_for_def demo_rule_facts)
  from rising_edge_notification[OF h, of demo_world demo_state]
  show ?thesis
    using h thr rows en none demo_world_returns by (simp add: Let_def demo_rule_facts)
qed

lemma pass_notifications_edges:
  assumes rows: "rows_of rule_id (rules_tbl st) = [r]"
    and en: "enabled r"
    and shape: "\<forall>x \<in> set (rules_tbl st). enabled x \<longrightarrow> well_formed_rule x"
    and worlds: "\<forall>(w, latest_close) \<in> set passes.
                   load_ok w \<longrightarrow> send_returns w \<and> update_ok w rule_id"
  shows "pass_notifications rule_id passes st =
           rising_edges (prev_result_of r) (map (\<lambda>p. pass_observed p r) passes)"
  using assms
proof (induction passes arbitrary: st r)
  case Nil
  then show ?case by simp
next
  case (Cons p passes)
  obtain w lc where p: "p = (w, lc)" by (cases p)
  have worlds': "\<forall>(w, latest_close) \<in> set passes.
                   load_ok w \<longrightarrow> send_returns w \<and> update_ok w rule_id"
    using Cons.prems(4) by simp
  show ?case
  proof (cases "load_ok w")
    case False
    have same: "snd (evaluate_alerts w lc st) = st"
      by (simp add: evaluate_alerts_unread[OF False])
    have "pass_notifications rule_id passes st =
            rising_edges (prev_result_of r) (map (\<lambda>p. pass_observed p r) passes)"
      by (rule Cons.IH[OF Cons.prems(1) Cons.prems(2) Cons.prems(3) worlds'])
    then show ?thesis
      using False by (simp add: p Let_def same pass_observed_def)
  next
    case True
    have pv: "send_returns w" and ok: "update_ok w rule_id"
      using Cons.prems(4) True by (simp_all add: p)
    define st' where "st' = snd (evaluate_alerts w lc st)"
    obtain r' where r': "rows_of rule_id (rules_tbl st') = [r']" "same_rule r r'"
        "prev_result_of r' = (case observed lc r of None \<Rightarrow> prev_result_of r | Some now \<Rightarrow> now)"
        "sends_for rule_id (trace st') = sends_for rule_id (trace st) +
               (case observed lc r of None \<Rightarrow> 0
                | Some now \<Rightarrow> if now \<and> \<not> prev_result_of r then 1 else 0)"
      using pass_step[OF Cons.prems(3) Cons.prems(1) Cons.prems(2) True pv ok, of lc]
      unfolding st'_def by blast
    have en': "enabled r'" using same_rule_reads(1)[OF r'(2)] Cons.prems(2) by simp
    have shape': "\<forall>x \<in> set (rules_tbl st'). enabled x \<longrightarrow> well_formed_rule x"
      unfolding st'_def by (rule shape_kept[OF evaluate_alerts_same Cons.prems(3)])
    have obs: "map (\<lambda>p. pass_observed p r') passes = map (\<lambda>p. pass_observed p r) passes"
      by (simp add: pass_observed_def same_rule_observed[OF r'(2)])
    have IH: "pass_notifications rule_id passes st' =
             rising_edges (prev_result_of r') (map (\<lambda>p. pass_observed p r) passes)"
      using Cons.IH[OF r'(1) en' shape' worlds'] by (simp add: obs)
    show ?thesis
      using IH r'(3,4) True
      by (cases "observed lc r") (simp_all add: p Let_def st'_def[symmetric] pass_observed_def)
  qed
qed

lemma rising_edges_length: "length (rising_edges p obs) = length obs"
  by (induction p obs rule: rising_edges.induct) simp_all

lemma rising_edges_le: "k < length obs \<Longrightarrow> rising_edges p obs ! k \<le> 1"
proof (induction p obs arbitrary: k rule: rising_edges.induct)
  case (1 prev)
  then show ?case by simp
next
  case (2 prev obs)
  then show ?case by (cases k) simp_all
next
  case (3 prev now obs)
  then show ?case by (cases k) simp_all
qed

lemma rising_edges_after_true:
  "k < length obs \<Longrightarrow> rising_edges True obs ! k = 1 \<Longrightarrow> \<exists>m<k. obs ! m = Some False"
proof (induction obs arbitrary: k)
  case Nil
  then show ?case by simp
next
  case (Cons a obs)
  show ?case
  proof (cases k)
    case 0
    then show ?thesis using Cons.prems by (cases a) simp_all
  next
    case (Suc k')
    show ?thesis
    proof (cases a)
      case None
      then obtain m where "m < k'" "obs ! m = Some False"
        using Cons.IH[of k'] Cons.prems Suc by auto
      then show ?thesis using Suc by (intro exI[of _ "Suc m"]) simp
    next
      case (Some now)
      show ?thesis
      proof (cases now)
        case True
        then obtain m where "m < k'" "obs ! m = Some False"
          using Cons.IH[of k'] Cons.prems Suc Some by auto
        then show ?thesis using Suc by (intro exI[of _ "Suc m"]) simp
      next
        case False
        then show ?thesis using Suc Some by (intro exI[of _ 0]) simp
      qed
    qed
  qed
qed

lemma rising_edges_gap:
  "j < k \<Longrightarrow> k < length obs \<Longrightarrow> rising_edges p obs ! j = 1 \<Longrightarrow> rising_edges p obs ! k = 1 \<Longrightarrow>
   \<exists>m. j < m \<and> m < k \<and> obs ! m = Some False"
proof (induction p obs arbitrary: j k rule: rising_edges.induct)
  case (1 prev)
  then show ?case by simp
next
  case (2 prev obs)
  obtain k' where k: "k = Suc k'" using "2.prems"(1) by (cases k) simp_all
  obtain j' where j: "j = Suc j'" using "2.prems"(3) by (cases j) simp_all
  obtain m where "j' < m" "m < k'" "obs ! m = Some False"
    using "2.IH"[of j' k'] "2.prems" k j by auto
  then show ?case using k j by (intro exI[of _ "Suc m"]) simp
next
  case (3 prev now obs)
  obtain k' where k: "k = Suc k'" using "3.prems"(1) by (cases k) simp_all
  show ?case
  proof (cases j)
    case 0
    then have "now" using "3.prems"(3) by (simp split: if_splits)
    then obtain m where "m < k'" "obs ! m = Some False"
      using rising_edges_after_true[of k' obs] "3.prems" k by auto
    then show ?thesis using k 0 by (intro exI[of _ "Suc m"]) simp
  next
    case (Suc j')
    obtain m where "j' < m" "m < k'" "obs ! m = Some False"
      using "3.IH"[of j' k'] "3.prems" k Suc by auto
    then show ?thesis using k Suc by (intro exI[of _ "Suc m"]) simp
  qed
qed

text \<open>
  Claim C2 does not hold as it is stated: when the store refuses the update of a rule
  after its mail went out, the stored \<open>last_result\<close> stays false, and the next pass that
  still observes the condition true calls \<open>send_alert_email\<close> again, with no pass in
  between that observed it false.
\<close>

theorem update_failure_repeats_notification:
  "send_result update_down_world (alert_for demo_rule (Fin 25)) = Inr True \<and>
   \<not> update_ok update_down_world (JNum (Fin 1)) \<and>
   observed [''VIX'' \<mapsto> Fin 25] demo_rule = Some True \<and>
   observed [''VIX'' \<mapsto> Fin 26] demo_rule = Some True \<and>
   pass_notifications (JNum (Fin 1))
     [(update_down_world, [''VIX'' \<mapsto> Fin 25]), (demo_world, [''VIX'' \<mapsto> Fin 26])]
     demo_state = [1, 1] \<and>
   rising_edges (prev_result_of demo_rule) [Some True, Some True] = [1, 0]"
  by code_simp

text \<open>What \<open>observed\<close> is, in terms of the stored cells, for finite floats.\<close>

lemma observed_stored:
  "price_of lc (dict_get r ''symbol_code'') = Some (Fin p) \<Longrightarrow>
   dict_get r ''direction'' = JStr ''>='' \<Longrightarrow> dict_get r ''threshold'' = JNum (Fin t) \<Longrightarrow>
   observed lc r = Some (t \<le> p)"
  "price_of lc (dict_get r ''symbol_code'') = None \<or> dict_get r ''direction'' \<noteq> JStr ''>='' \<Longrightarrow>
   observed lc r = None"
  by (auto simp: observed_def threshold_of_def split: option.splits)

text \<open>
  Claim C2, amended. Take a rule that is stored once under its id and enabled, in a table
  whose enabled rows have the typed shape, and any sequence of passes such that, in each
  pass that reads the rules, the notification call returns and the store accepts the
  update of this rule. A pass observes nothing of the rule when its read of the rules
  fails, when the rule's symbol has no price or its direction is not \<open>>=\<close>, and
  \<open>threshold \<le> price\<close> otherwise (for finite floats). Then the numbers of calls of
  \<open>send_alert_email\<close> for the rule, pass by pass, are the rising edges of these
  observations, starting from whether the stored \<open>last_result\<close> is \<open>True\<close>: a pass
  notifies at most once, and between two passes that notify there is a pass that observed
  the condition false.
\<close>

theorem one_notification_per_edge:
  assumes rows: "rows_of rule_id (rules_tbl st) = [r]"
    and en: "enabled r"
    and shape: "\<forall>x \<in> set (rules_tbl st). enabled x \<longrightarrow> well_formed_rule x"
    and worlds: "\<forall>(w, latest_close) \<in> set passes.
                   load_ok w \<longrightarrow> send_returns w \<and> update_ok w rule_id"
  shows "let sent = pass_notifications rule_id passes st;
             obs = map (\<lambda>p. pass_observed p r) passes;
             stored = (dict_get r ''last_result'' = JBool True)
         in sent = rising_edges stored obs \<and>
            (\<forall>k < length passes. sent ! k \<le> 1) \<and>
            (\<forall>j k. j < k \<and> k < length passes \<and> sent ! j = 1 \<and> sent ! k = 1 \<longrightarrow>
                   (\<exists>m. j < m \<and> m < k \<and> obs ! m = Some False)) \<and>
            (\<forall>w lc p t.
               load_ok w \<and> price_of lc (dict_get r ''symbol_code'') = Some (Fin p) \<and>
               dict_get r ''direction'' = JStr ''>='' \<and> dict_get r ''threshold'' = JNum (Fin t) \<longrightarrow>
               pass_observed (w, lc) r = Some (t \<le> p)) \<and>
            (\<forall>w lc.
               \<not> load_ok w \<or> price_of lc (dict_get r ''symbol_code'') = None \<or>
               dict_get r ''direction'' \<noteq> JStr ''>='' \<longrightarrow>
               pass_observed (w, lc) r = None)"
proof -
  define obs where "obs = map (\<lambda>p. pass_observed p r) passes"
  define stored where "stored = (dict_get r ''last_result'' = JBool True)"
  have "r \<in> set (rows_of rule_id (rules_tbl st))" using rows by simp
  then have "r \<in> set (rules_tbl st)" by (simp add: rows_of_def)
  then have wf: "well_formed_rule r" using shape en by blast
  have prev: "prev_result_of r = stored"
    by (simp add: stored_def prev_result_stored[OF wf])
  have len: "length obs = length passes" by (simp add: obs_def)
  have eq: "pass_notifications rule_id passes st = rising_edges stored obs"
    unfolding obs_def prev[symmetric] by (rule pass_notifications_edges[OF rows en shape worlds])
  have le: "\<forall>k < length passes. rising_edges stored obs ! k \<le> 1"
    using rising_edges_le[of _ obs] len by simp
  have gap: "\<forall>j k. j < k \<and> k < length passes \<and> rising_edges stored obs ! j = 1 \<and>
                   rising_edges stored obs ! k = 1 \<longrightarrow>
                   (\<exists>m. j < m \<and> m < k \<and> obs ! m = Some False)"
    using rising_edges_gap[of _ _ obs stored] len by simp
  have pin: "\<forall>w lc p t.
               load_ok w \<and> price_of lc (dict_get r ''symbol_code'') = Some (Fin p) \<and>
               dict_get r ''direction'' = JStr ''>='' \<and> dict_get r ''threshold'' = JNum (Fin t) \<longrightarrow>
               pass_observed (w, lc) r = Some (t \<le> p)"
    by (simp add: pass_observed_def observed_stored(1))
  have pin0: "\<forall>w lc.
               \<not> load_ok w \<or> price_of lc (dict_get r ''symbol_code'') = None \<or>
               dict_get r ''direction'' \<noteq> JStr ''>='' \<longrightarrow>
               pass_observed (w, lc) r = None"
    using observed_stored(2)[of _ r] by (auto simp: pass_observed_def)
  show ?thesis
    unfolding Let_def obs_def[symmetric] stored_def[symmetric]
    using eq le gap pin pin0 by simp
qed

theorem one_notification_per_edge_witness:
  "rows_of (JNum (Fin 1)) (rules_tbl demo_state) = [demo_rule] \<and>
   enabled demo_rule \<and> well_formed_rule demo_rule \<and>
   load_ok demo_world \<and> send_returns demo_world \<and> update_ok demo_world (JNum (Fin 1)) \<and>
   dict_get demo_rule ''last_result'' = JNull \<and>
   pass_notifications (JNum (Fin 1))
     [(demo_world, [''VIX'' \<mapsto> Fin 25]), (demo_world, [''VIX'' \<mapsto> Fin 26]),
      (demo_world, Map.empty), (demo_world, [''VIX'' \<mapsto> Fin 15]),
      (demo_world, [''VIX'' \<mapsto> Fin 22])] demo_state = [1, 0, 0, 0, 1]"
proof -
  let ?passes = "[(demo_world, [''VIX'' \<mapsto> Fin 25]), (demo_world, [''VIX'' \<mapsto> Fin 26]),
      (demo_world, Map.empty), (demo_world, [''VIX'' \<mapsto> Fin 15]),
      (demo_world, [''VIX'' \<mapsto> Fin 22 :: pyfloat])]"
  have rows: "rows_of (JNum (Fin 1)) (rules_tbl demo_state) = [demo_rule]"
    by (simp add: rows_of_def demo_state_def demo_rule_def)
  have en: "enabled demo_rule" by (simp add: enabled_def demo_rule_def)
  have wf: "well_formed_rule demo_rule" by (rule demo_rule_facts(1))
  have shape: "\<forall>x \<in> set (rules_tbl demo_state). enabled x \<longrightarrow> well_formed_rule x"
    by (simp add: demo_rule_facts wf)
  have worlds: "\<forall>(w, latest_close) \<in> set ?passes.
                  load_ok w \<longrightarrow> send_returns w \<and> update_ok w (JNum (Fin 1))"
    by (simp add: demo_world_returns)
  have edges: "rising_edges (dict_get demo_rule ''last_result'' = JBool True)
                 (map (\<lambda>p. pass_observed p demo_rule) ?passes) = [1, 0, 0, 0, 1]"
    by (simp add: pass_observed_def observed_def demo_rule_facts demo_defs demo_world_returns)
  from one_notification_per_edge[OF rows en shape worlds]
  show ?thesis
    using rows en wf edges demo_world_returns by (simp add: Let_def demo_rule_facts)
qed

section \<open>The loop over the tickers\<close>

lemma upsert_ohlc_ok:
  assumes "upsert_ok w x"
  shows "upsert_ohlc w x st =
           (None, (record_all [UpsertCall x] st)\<lparr>prices_tbl := upsert_row x (prices_tbl st)\<rparr>)"
  using assms by (simp add: upsert_ohlc_def Let_def record_all_simps record_all_def)

lemma fetch_symbol: "fetch_latest_ohlc w n y = Inr x \<Longrightarrow> ohlc_symbol x = n"
  by (auto simp: fetch_latest_ohlc_def Let_def split: sum.splits if_splits)

lemma upsert_row_has: "x \<in> set (upsert_row x tbl)"
  by (induction tbl) (auto simp: upsert_row_def same_key_def list_ex_iff)

lemma upsert_row_keeps:
  assumes "x \<in> set tbl" "ohlc_symbol x \<noteq> ohlc_symbol x'"
  shows "x \<in> set (upsert_row x' tbl)"
  using assms by (auto simp: upsert_row_def same_key_def)

lemma collected_absent:
  assumes "n \<notin> fst ` set ts"
  shows "collected w ts lc n = lc n"
  using assms
  by (induction ts arbitrary: lc) (auto split: sum.splits)

lemma ingest_succeeds:
  assumes "\<forall>(n, y) \<in> set ts. \<forall>x. fetch_latest_ohlc w n y = Inr x \<longrightarrow> upsert_ok w x"
  shows "fst (ingest w ts lc st) = Inr (collected w ts lc)"
  using assms
proof (induction ts arbitrary: lc st)
  case Nil
  then show ?case by simp
next
  case (Cons a ts)
  obtain n y where a: "a = (n, y)" by (cases a)
  show ?case
  proof (cases "fetch_latest_ohlc w n y")
    case (Inl e)
    then show ?thesis using Cons by (simp add: a Let_def)
  next
    case (Inr x)
    then have "upsert_ok w x" using Cons.prems by (simp add: a)
    then show ?thesis using Cons Inr by (simp add: a Let_def upsert_ohlc_ok)
  qed
qed

lemma ingest_rules: "rules_tbl (snd (ingest w ts lc st)) = rules_tbl st"
proof (induction ts arbitrary: lc st)
  case Nil
  then show ?case by simp
next
  case (Cons a ts)
  obtain n y where a: "a = (n, y)" by (cases a)
  show ?case
    by (simp add: a Let_def upsert_ohlc_def Cons.IH record_all_simps
        split: sum.splits prod.splits option.splits)
qed

lemma ingest_trace_mono: "set (trace st) \<subseteq> set (trace (snd (ingest w ts lc st)))"
proof (induction ts arbitrary: lc st)
  case Nil
  then show ?case by simp
next
  case (Cons a ts)
  obtain n y where a: "a = (n, y)" by (cases a)
  let ?st0 = "emit (FetchCall n y) st"
  show ?case
  proof (cases "fetch_latest_ohlc w n y")
    case (Inl e)
    have "set (trace (emit (FetchError n) ?st0)) \<subseteq>
          set (trace (snd (ingest w ts lc (emit (FetchError n) ?st0))))"
      by (rule Cons.IH)
    then show ?thesis using Inl by (auto simp: a Let_def record_all_simps)
  next
    case (Inr x)
    show ?thesis
    proof (cases "upsert_ok w x")
      case True
      let ?st1 = "(record_all [UpsertCall x] ?st0)\<lparr>prices_tbl := upsert_row x (prices_tbl ?st0)\<rparr>"
      have "set (trace ?st1) \<subseteq> set (trace (snd (ingest w ts (lc(n \<mapsto> ohlc_close x)) ?st1)))"
        by (rule Cons.IH)
      then show ?thesis using Inr True by (auto simp: a Let_def upsert_ohlc_ok record_all_simps)
    next
      case False
      then show ?thesis using Inr by (auto simp: a Let_def upsert_ohlc_def record_all_simps)
    qed
  qed
qed

lemma ingest_prices_keep:
  assumes "x \<in> set (prices_tbl st)" "ohlc_symbol x \<notin> fst ` set ts"
  shows "x \<in> set (prices_tbl (snd (ingest w ts lc st)))"
  using assms
proof (induction ts arbitrary: lc st)
  case Nil
  then show ?case by simp
next
  case (Cons a ts)
  obtain n y where a: "a = (n, y)" by (cases a)
  let ?st0 = "emit (FetchCall n y) st"
  have sym: "ohlc_symbol x \<noteq> n" and rest: "ohlc_symbol x \<notin> fst ` set ts"
    using Cons.prems(2) by (auto simp: a)
  show ?case
  proof (cases "fetch_latest_ohlc w n y")
    case (Inl e)
    have "x \<in> set (prices_tbl (snd (ingest w ts lc (emit (FetchError n) ?st0))))"
      using Cons.prems(1) rest by (intro Cons.IH) (simp_all add: record_all_simps)
    then show ?thesis using Inl by (simp add: a Let_def)
  next
    case (Inr x')
    have sym': "ohlc_symbol x \<noteq> ohlc_symbol x'"
      using fetch_symbol[OF Inr] sym by simp
    show ?thesis
    proof (cases "upsert_ok w x'")
      case True
      let ?st1 = "(record_all [UpsertCall x'] ?st0)\<lparr>prices_tbl := upsert_row x' (prices_tbl ?st0)\<rparr>"
      have "x \<in> set (prices_tbl ?st1)"
        using upsert_row_keeps[OF _ sym'] Cons.prems(1) by (simp add: record_all_simps)
      then have "x \<in> set (prices_tbl (snd (ingest w ts (lc(n \<mapsto> ohlc_close x')) ?st1)))"
        using rest by (intro Cons.IH)
      then show ?thesis using Inr True by (simp add: a Let_def upsert_ohlc_ok)
    next
      case False
      then show ?thesis using Inr Cons.prems(1)
        by (simp add: a Let_def upsert_ohlc_def record_all_simps)
    qed
  qed
qed


lemma collected_lookup:
  assumes "distinct (map fst ts)" "(n, y) \<in> set ts"
  shows "collected w ts lc n =
           (case fetch_latest_ohlc w n y of Inl e \<Rightarrow> lc n | Inr x \<Rightarrow> Some (ohlc_close x))"
  using assms
proof (induction ts arbitrary: lc)
  case Nil
  then show ?case by simp
next
  case (Cons a ts)
  obtain n' y' where a: "a = (n', y')" by (cases a)
  have fresh: "n' \<notin> fst ` set ts" and dist: "distinct (map fst ts)"
    using Cons.prems(1) by (simp_all add: a)
  show ?case
  proof (cases "(n, y) = a")
    case True
    then have "n' = n" "y' = y" by (simp_all add: a)
    then show ?thesis
      using fresh by (simp add: a collected_absent split: sum.splits)
  next
    case False
    then have mem: "(n, y) \<in> set ts" using Cons.prems(2) by simp
    then have ne: "n \<noteq> n'" using fresh by force
    show ?thesis
      using Cons.IH[OF dist mem] ne by (simp add: a split: sum.splits)
  qed
qed

lemma ingest_per_ticker:
  assumes keys: "distinct (map fst ts)"
    and stores: "\<forall>(n, y) \<in> set ts. \<forall>x. fetch_latest_ohlc w n y = Inr x \<longrightarrow> upsert_ok w x"
    and mem: "(n, y) \<in> set ts"
  shows "case fetch_latest_ohlc w n y of
           Inl e \<Rightarrow> FetchError n \<in> set (trace (snd (ingest w ts lc st)))
         | Inr x \<Rightarrow> UpsertCall x \<in> set (trace (snd (ingest w ts lc st))) \<and>
                     x \<in> set (prices_tbl (snd (ingest w ts lc st)))"
  using assms
proof (induction ts arbitrary: lc st)
  case Nil
  then show ?case by simp
next
  case (Cons a ts)
  obtain n' y' where a: "a = (n', y')" by (cases a)
  have fresh: "n' \<notin> fst ` set ts" and dist: "distinct (map fst ts)"
    using Cons.prems(1) by (simp_all add: a)
  have stores': "\<forall>(n, y) \<in> set ts. \<forall>x. fetch_latest_ohlc w n y = Inr x \<longrightarrow> upsert_ok w x"
    using Cons.prems(2) by simp
  let ?st0 = "emit (FetchCall n' y') st"
  show ?case
  proof (cases "(n, y) = a")
    case True
    then have eq: "n' = n" "y' = y" by (simp_all add: a)
    show ?thesis
    proof (cases "fetch_latest_ohlc w n y")
      case (Inl e)
      let ?st1 = "emit (FetchError n) ?st0"
      have "FetchError n \<in> set (trace ?st1)" by (simp add: record_all_simps)
      then have "FetchError n \<in> set (trace (snd (ingest w ts lc ?st1)))"
        using ingest_trace_mono[of ?st1 w ts lc] by blast
      then show ?thesis using Inl by (simp add: a eq Let_def)
    next
      case (Inr x)
      have ok: "upsert_ok w x" using Cons.prems(2) Inr by (simp add: a eq)
      let ?st1 = "(record_all [UpsertCall x] ?st0)\<lparr>prices_tbl := upsert_row x (prices_tbl ?st0)\<rparr>"
      have "UpsertCall x \<in> set (trace ?st1)" by (simp add: record_all_simps)
      then have t: "UpsertCall x \<in> set (trace (snd (ingest w ts (lc(n \<mapsto> ohlc_close x)) ?st1)))"
        using ingest_trace_mono[of ?st1 w ts] by blast
      have "x \<in> set (prices_tbl ?st1)" by (simp add: upsert_row_has)
      moreover have "ohlc_symbol x \<notin> fst ` set ts"
        using fetch_symbol[OF Inr] fresh by (simp add: eq)
      ultimately have "x \<in> set (prices_tbl (snd (ingest w ts (lc(n \<mapsto> ohlc_close x)) ?st1)))"
        by (rule ingest_prices_keep)
      then show ?thesis using Inr ok t by (simp add: a eq Let_def upsert_ohlc_ok)
    qed
  next
    case False
    then have mem: "(n, y) \<in> set ts" using Cons.prems(3) by simp
    note IH = Cons.IH[OF dist stores' mem]
    show ?thesis
    proof (cases "fetch_latest_ohlc w n' y'")
      case (Inl e)
      have eq: "ingest w (a # ts) lc st = ingest w ts lc (emit (FetchError n') ?st0)"
        using Inl by (simp add: a Let_def)
      show ?thesis unfolding eq by (rule IH)
    next
      case (Inr x')
      have ok: "upsert_ok w x'" using Cons.prems(2) Inr by (simp add: a)
      have eq: "ingest w (a # ts) lc st =
                ingest w ts (lc(n' \<mapsto> ohlc_close x'))
                  ((record_all [UpsertCall x'] ?st0)\<lparr>prices_tbl := upsert_row x' (prices_tbl ?st0)\<rparr>)"
        using Inr ok by (simp add: a Let_def upsert_ohlc_ok)
      show ?thesis unfolding eq by (rule IH)
    qed
  qed
qed


lemma eval_rule_trace_mono: "set (trace st) \<subseteq> set (trace (snd (eval_rule w lc r st)))"
proof -
  have judge: "\<And>i sy d t e. set (trace st) \<subseteq> set (trace (snd (judge_rule w lc r i sy d t e st)))"
    by (auto simp: judge_rule_def Let_def send_alert_email_eq record_all_simps update_rule_trace
        split: option.splits sum.splits jval.splits prod.splits)
  show ?thesis
    using judge by (simp add: eval_rule_def split: sum.splits)
qed

lemma eval_rules_trace_mono: "set (trace st) \<subseteq> set (trace (snd (eval_rules w lc rs st)))"
proof (induction rs arbitrary: st)
  case Nil
  then show ?case by simp
next
  case (Cons r rs)
  obtain e st' where ev: "eval_rule w lc r st = (e, st')" by (cases "eval_rule w lc r st")
  have one: "set (trace st) \<subseteq> set (trace st')"
    using eval_rule_trace_mono[of st w lc r] ev by simp
  show ?case
  proof (cases e)
    case None
    then show ?thesis using one Cons.IH[of st'] ev by auto
  next
    case (Some a)
    then show ?thesis using one ev by simp
  qed
qed

lemma eval_rules_returns:
  assumes "\<forall>x \<in> set rs. well_formed_rule x" and pv: "send_returns w"
  shows "fst (eval_rules w lc rs st) = None"
  using assms(1)
proof (induction rs arbitrary: st)
  case Nil
  then show ?case by simp
next
  case (Cons r rs)
  obtain e st' where ev: "eval_rule w lc r st = (e, st')" by (cases "eval_rule w lc r st")
  have "e = None" using eval_rule_returns[OF _ pv, of r lc st] Cons.prems ev by simp
  then show ?case using Cons ev by simp
qed

text \<open>A pass over rules of the typed shape reaches every enabled rule.\<close>

lemma evaluate_alerts_reaches:
  assumes shape: "\<forall>x \<in> set (rules_tbl st). enabled x \<longrightarrow> well_formed_rule x"
    and stored: "r \<in> set (rules_tbl st)" and en: "enabled r"
    and ld: "load_ok w"
    and pv: "send_returns w"
    and price: "price_of lc (dict_get r ''symbol_code'') = Some price"
    and dir: "dict_get r ''direction'' = JStr ''>=''"
  shows "RuleLine (dict_get r ''id'') (dict_get r ''last_result'' = JBool True)
             (float_ge price (threshold_of r))
           \<in> set (trace (snd (evaluate_alerts w lc st)))"
proof -
  let ?L = "filter enabled (rules_tbl st)"
  let ?line = "RuleLine (dict_get r ''id'') (dict_get r ''last_result'' = JBool True)
                 (float_ge price (threshold_of r))"
  have all_wf: "\<forall>x \<in> set ?L. well_formed_rule x" using shape by simp
  have "r \<in> set ?L" using stored en by simp
  then obtain pre post where split: "?L = pre @ r # post" by (auto simp: in_set_conv_decomp)
  have wf: "well_formed_rule r" using shape stored en by blast
  define st1 where "st1 = snd (eval_rules w lc pre st)"
  define st2 where "st2 = snd (eval_rule w lc r st1)"
  have pre: "fst (eval_rules w lc pre st) = None"
    using all_wf by (intro eval_rules_returns[OF _ pv]) (simp add: split)
  have ret: "fst (eval_rule w lc r st1) = None" by (rule eval_rule_returns[OF wf pv])
  have "eval_rules w lc ?L st = eval_rules w lc (r # post) st1"
    using eval_rules_append[OF pre, of "r # post"] by (simp add: split st1_def)
  also have "\<dots> = eval_rules w lc post st2"
    using ret by (cases "eval_rule w lc r st1") (simp add: st2_def)
  finally have run: "snd (evaluate_alerts w lc st) = snd (eval_rules w lc post st2)"
    by (simp add: evaluate_alerts_read[OF ld] split)
  obtain b where b: "send_result w (alert_for r price) = Inr b"
    using send_returns_reports[OF pv] by blast
  have "?line \<in> set (trace st2)"
    unfolding st2_def
    by (simp add: eval_rule_judged[OF wf price dir] Let_def b record_all_simps update_rule_trace
        prev_result_stored[OF wf])
  then show ?thesis
    using eval_rules_trace_mono[of st2 w lc post] run by auto
qed

text \<open>
  Claim C8. A ticker whose fetch fails has the failure printed and the loop of \<open>main\<close>
  goes on with the tickers after it, the map as it was. Take any sequence of tickers with
  distinct logical names, in a run whose price store accepts the upsert of every row that
  is fetched: the loop goes through all of them and hands its map to \<open>evaluate_alerts\<close>:
  a ticker whose fetch fails has its error printed and no entry in the map; a ticker whose
  fetch succeeds has its row upserted and in the table, and its close in the map. Every
  enabled rule with a
  price in that map and the direction \<open>>=\<close> is evaluated in the same run, its line printed
  with the stored result and \<open>price >= threshold\<close>, when the rules are read, the enabled
  rules have the typed shape and the notification call returns.
\<close>

theorem fetch_failure_isolated:
  assumes keys: "distinct (map fst tickers)"
    and stores: "\<forall>(n, y) \<in> set tickers. \<forall>x. fetch_latest_ohlc w n y = Inr x \<longrightarrow> upsert_ok w x"
  shows "(\<forall>n y e rest lc s.
            fetch_latest_ohlc w n y = Inl e \<longrightarrow>
            ingest w ((n, y) # rest) lc s =
              ingest w rest lc (record_all [FetchCall n y, FetchError n] s)) \<and>
         (\<exists>latest_close st1.
           ingest w tickers Map.empty st = (Inr latest_close, st1) \<and>
           main_on w tickers st = evaluate_alerts w latest_close st1 \<and>
           (\<forall>(n, y) \<in> set tickers.
              case fetch_latest_ohlc w n y of
                Inl e \<Rightarrow> latest_close n = None \<and> FetchError n \<in> set (trace st1)
              | Inr x \<Rightarrow> latest_close n = Some (ohlc_close x) \<and>
                          UpsertCall x \<in> set (trace st1) \<and> x \<in> set (prices_tbl st1)) \<and>
           (\<forall>r price.
              r \<in> set (rules_tbl st) \<and> enabled r \<and>
              (\<forall>x \<in> set (rules_tbl st). enabled x \<longrightarrow> well_formed_rule x) \<and>
              load_ok w \<and> send_returns w \<and>
              price_of latest_close (dict_get r ''symbol_code'') = Some price \<and>
              dict_get r ''direction'' = JStr ''>='' \<longrightarrow>
              RuleLine (dict_get r ''id'') (dict_get r ''last_result'' = JBool True)
                  (float_ge price (threshold_of r))
                \<in> set (trace (snd (main_on w tickers st)))))"
proof -
  have goes_on: "\<forall>n y e rest lc s.
            fetch_latest_ohlc w n y = Inl e \<longrightarrow>
            ingest w ((n, y) # rest) lc s =
              ingest w rest lc (record_all [FetchCall n y, FetchError n] s)"
    by (simp add: Let_def record_all_simps)
  define lc where "lc = collected w tickers Map.empty"
  define st1 where "st1 = snd (ingest w tickers Map.empty st)"
  have run: "ingest w tickers Map.empty st = (Inr lc, st1)"
    using ingest_succeeds[OF stores, of Map.empty st]
    by (cases "ingest w tickers Map.empty st") (simp add: lc_def st1_def)
  have main: "main_on w tickers st = evaluate_alerts w lc st1"
    by (simp add: main_on_def run)
  have tbl: "rules_tbl st1 = rules_tbl st" by (simp add: st1_def ingest_rules)
  have each: "\<forall>(n, y) \<in> set tickers.
              case fetch_latest_ohlc w n y of
                Inl e \<Rightarrow> lc n = None \<and> FetchError n \<in> set (trace st1)
              | Inr x \<Rightarrow> lc n = Some (ohlc_close x) \<and>
                          UpsertCall x \<in> set (trace st1) \<and> x \<in> set (prices_tbl st1)"
  proof (intro ballI, clarify)
    fix n y assume mem: "(n, y) \<in> set tickers"
    show "case fetch_latest_ohlc w n y of
                Inl e \<Rightarrow> lc n = None \<and> FetchError n \<in> set (trace st1)
              | Inr x \<Rightarrow> lc n = Some (ohlc_close x) \<and>
                          UpsertCall x \<in> set (trace st1) \<and> x \<in> set (prices_tbl st1)"
      using collected_lookup[OF keys mem, of w Map.empty]
        ingest_per_ticker[OF keys stores mem, of Map.empty st]
      by (simp add: lc_def st1_def split: sum.splits)
  qed
  have rules: "\<forall>r price.
              r \<in> set (rules_tbl st) \<and> enabled r \<and>
              (\<forall>x \<in> set (rules_tbl st). enabled x \<longrightarrow> well_formed_rule x) \<and>
              load_ok w \<and> send_returns w \<and>
              price_of lc (dict_get r ''symbol_code'') = Some price \<and>
              dict_get r ''direction'' = JStr ''>='' \<longrightarrow>
              RuleLine (dict_get r ''id'') (dict_get r ''last_result'' = JBool True)
                  (float_ge price (threshold_of r))
                \<in> set (trace (snd (main_on w tickers st)))"
    using evaluate_alerts_reaches[of st1 _ w lc] by (simp add: main tbl)
  have "\<exists>latest_close st1.
           ingest w tickers Map.empty st = (Inr latest_close, st1) \<and>
           main_on w tickers st = evaluate_alerts w latest_close st1 \<and>
           (\<forall>(n, y) \<in> set tickers.
              case fetch_latest_ohlc w n y of
                Inl e \<Rightarrow> latest_close n = None \<and> FetchError n \<in> set (trace st1)
              | Inr x \<Rightarrow> latest_close n = Some (ohlc_close x) \<and>
                          UpsertCall x \<in> set (trace st1) \<and> x \<in> set (prices_tbl st1)) \<and>
           (\<forall>r price.
              r \<in> set (rules_tbl st) \<and> enabled r \<and>
              (\<forall>x \<in> set (rules_tbl st). enabled x \<longrightarrow> well_formed_rule x) \<and>
              load_ok w \<and> send_returns w \<and>
              price_of latest_close (dict_get r ''symbol_code'') = Some price \<and>
              dict_get r ''direction'' = JStr ''>='' \<longrightarrow>
              RuleLine (dict_get r ''id'') (dict_get r ''last_result'' = JBool True)
                  (float_ge price (threshold_of r))
                \<in> set (trace (snd (main_on w tickers st))))"
    using run main each rules by blast
  then show ?thesis
    using goes_on by blast
qed


theorem fetch_failure_isolated_witness:
  "distinct (map fst INDEX_TICKERS) \<and>
   fetch_latest_ohlc demo_world ''NIKKEI_VI'' ''^NKVI.OS'' = Inl RuntimeError \<and>
   fetch_latest_ohlc demo_world ''VIX'' ''^VIX'' =
     Inr \<lparr>ohlc_symbol = ''VIX'', ohlc_date = ''2024-05-02'', ohlc_open = Fin 24,
          ohlc_high = Fin 26, ohlc_low = Fin 23, ohlc_close = Fin 25\<rparr> \<and>
   upsert_ok demo_world \<lparr>ohlc_symbol = ''VIX'', ohlc_date = ''2024-05-02'', ohlc_open = Fin 24,
          ohlc_high = Fin 26, ohlc_low = Fin 23, ohlc_close = Fin 25\<rparr> \<and>
   demo_rule \<in> set (rules_tbl demo_state) \<and> enabled demo_rule \<and> well_formed_rule demo_rule \<and>
   load_ok demo_world \<and> send_returns demo_world \<and>
   dict_get demo_rule ''last_result'' = JNull \<and>
   (\<exists>latest_close st1.
      ingest demo_world INDEX_TICKERS Map.empty demo_state = (Inr latest_close, st1) \<and>
      latest_close ''NIKKEI_VI'' = None \<and> latest_close ''VIX'' = Some (Fin 25) \<and>
      FetchError ''NIKKEI_VI'' \<in> set (trace st1) \<and>
      \<lparr>ohlc_symbol = ''VIX'', ohlc_date = ''2024-05-02'', ohlc_open = Fin 24,
          ohlc_high = Fin 26, ohlc_low = Fin 23, ohlc_close = Fin 25\<rparr> \<in> set (prices_tbl st1) \<and>
      RuleLine (JNum (Fin 1)) False True \<in> set (trace (snd (main_on demo_world INDEX_TICKERS demo_state))))"
proof -
  let ?x = "\<lparr>ohlc_symbol = ''VIX'', ohlc_date = ''2024-05-02'', ohlc_open = Fin 24,
          ohlc_high = Fin 26, ohlc_low = Fin 23, ohlc_close = Fin 25\<rparr>"
  have keys: "distinct (map fst INDEX_TICKERS)" by (simp add: INDEX_TICKERS_def)
  have f1: "fetch_latest_ohlc demo_world ''NIKKEI_VI'' ''^NKVI.OS'' = Inl RuntimeError"
    by (simp add: fetch_latest_ohlc_def demo_world_def)
  have f2: "fetch_latest_ohlc demo_world ''VIX'' ''^VIX'' = Inr ?x"
    by (simp add: fetch_latest_ohlc_def demo_world_def)
  have ok: "\<And>x. upsert_ok demo_world x" by (simp add: demo_world_def)
  have stores: "\<forall>(n, y) \<in> set INDEX_TICKERS.
                  \<forall>x. fetch_latest_ohlc demo_world n y = Inr x \<longrightarrow> upsert_ok demo_world x"
    by (simp add: ok)
  have stored: "demo_rule \<in> set (rules_tbl demo_state)" by (simp add: demo_rule_facts)
  have en: "enabled demo_rule" by (simp add: enabled_def demo_rule_def)
  have wf: "well_formed_rule demo_rule" by (rule demo_rule_facts(1))
  have shape: "\<forall>x \<in> set (rules_tbl demo_state). enabled x \<longrightarrow> well_formed_rule x"
    by (simp add: demo_rule_facts wf)
  note pv = demo_world_returns(1,2)
  have sym: "dict_get demo_rule ''symbol_code'' = JStr ''VIX''" by (simp add: demo_defs)
  from fetch_failure_isolated[OF keys stores, of demo_state]
  obtain lc st1 where run: "ingest demo_world INDEX_TICKERS Map.empty demo_state = (Inr lc, st1)"
    and each: "\<forall>(n, y) \<in> set INDEX_TICKERS.
              case fetch_latest_ohlc demo_world n y of
                Inl e \<Rightarrow> lc n = None \<and> FetchError n \<in> set (trace st1)
              | Inr x \<Rightarrow> lc n = Some (ohlc_close x) \<and>
                          UpsertCall x \<in> set (trace st1) \<and> x \<in> set (prices_tbl st1)"
    and rules: "\<forall>r price.
              r \<in> set (rules_tbl demo_state) \<and> enabled r \<and>
              (\<forall>x \<in> set (rules_tbl demo_state). enabled x \<longrightarrow> well_formed_rule x) \<and>
              load_ok demo_world \<and> send_returns demo_world \<and>
              price_of lc (dict_get r ''symbol_code'') = Some price \<and>
              dict_get r ''direction'' = JStr ''>='' \<longrightarrow>
              RuleLine (dict_get r ''id'') (dict_get r ''last_result'' = JBool True)
                  (float_ge price (threshold_of r))
                \<in> set (trace (snd (main_on demo_world INDEX_TICKERS demo_state)))"
    by blast
  have vix: "lc ''VIX'' = Some (Fin 25)" "?x \<in> set (prices_tbl st1)"
    and nk: "lc ''NIKKEI_VI'' = None" "FetchError ''NIKKEI_VI'' \<in> set (trace st1)"
    using each f1 f2 by (simp_all add: INDEX_TICKERS_def)
  have price: "price_of lc (dict_get demo_rule ''symbol_code'') = Some (Fin 25)"
    by (simp add: sym price_of_def vix)
  have "RuleLine (dict_get demo_rule ''id'') (dict_get demo_rule ''last_result'' = JBool True)
           (float_ge (Fin 25) (threshold_of demo_rule))
          \<in> set (trace (snd (main_on demo_world INDEX_TICKERS demo_state)))"
    using rules stored en shape pv price demo_rule_facts(3) by blast
  then have line: "RuleLine (JNum (Fin 1)) False True
          \<in> set (trace (snd (main_on demo_world INDEX_TICKERS demo_state)))"
    by (simp add: demo_rule_facts)
  show ?thesis
    using keys f1 f2 ok stored en wf pv run vix nk line demo_rule_facts(7) by blast
qed

text \<open>The store refusing the update of a rule: printed, and the loop goes on.\<close>

lemma update_failure_recovered:
  assumes "\<not> update_ok w i"
  shows "update_rule w i f st = record_all [UpdateCall i f, UpdateError i] st"
  using assms by (simp add: update_rule_def Let_def record_all_simps)

text \<open>
  Claim C5 asks that a failing upsert of a price row be printed and the loop of \<open>main\<close> go
  on with the next symbol, as the failing update of a rule is in \<open>evaluate_alerts\<close>. The
  upsert stands outside the \<open>try\<close> of that loop: in a world where both tickers have a
  history and the price store refuses the upsert, the run ends at the first ticker with
  the store's error, the second ticker is never fetched and no rule is evaluated.
\<close>

theorem upsert_failure_aborts_run:
  "fetch_latest_ohlc store_down_world ''NIKKEI_VI'' ''^NKVI.OS'' =
     Inr \<lparr>ohlc_symbol = ''NIKKEI_VI'', ohlc_date = ''2024-05-02'', ohlc_open = Fin 24,
          ohlc_high = Fin 26, ohlc_low = Fin 23, ohlc_close = Fin 25\<rparr> \<and>
   main store_down_world demo_state =
     (Some StoreError,
      record_all [FetchCall ''VIX'' ''^VIX'',
                  UpsertCall \<lparr>ohlc_symbol = ''VIX'', ohlc_date = ''2024-05-02'', ohlc_open = Fin 24,
                             ohlc_high = Fin 26, ohlc_low = Fin 23, ohlc_close = Fin 25\<rparr>]
        demo_state)"
  by code_simp

end
